theory Spec2Isabelle
  imports Complex_Main "HOL-Library.Word" "HOL-Library.Sublist"
begin

section \<open>Values shared by the compressors\<close>

text \<open>
  A JavaScript \<open>Error\<close> carries a message. A rejected promise and a \<open>throw\<close> are the
  \<open>Inl\<close> branch of a sum; a fulfilled promise is the \<open>Inr\<close> branch.
\<close>

datatype error = Error string

text \<open>
  A \<open>Blob\<close> is its bytes and its MIME type; \<open>blob.size\<close> is the number of bytes.
  A \<open>File\<close> is a \<open>Blob\<close> (the compressors read \<open>file.type\<close> and \<open>file.size\<close>
  only; \<open>file.name\<close> is used for logging).
\<close>

record Blob =
  bytes :: "8 word list"
  mime :: string

type_synonym File = Blob

definition blob_size :: "Blob \<Rightarrow> nat" where
  "blob_size b = length (bytes b)"

text \<open>\<open>CompressedImageResult\<close> of \<open>lib/types.ts\<close>. Qualities are JavaScript numbers,
  modelled as exact reals.\<close>

record CompressedImageResult =
  blob :: Blob
  dataUrl :: string
  quality :: real

text \<open>\<open>canvasToBlob(canvas, quality)\<close> resolves with \<open>{ blob, dataUrl }\<close> or rejects with
  "Canvas to Blob conversion failed". The canvas is fixed during a search, so the encoder
  of a search is a function of the quality alone.\<close>

type_synonym encoder = "real \<Rightarrow> error + Blob \<times> string"

section \<open>The numbers of JavaScript\<close>

text \<open>
  A \<open>number\<close> is an IEEE 754 double. A finite double is modelled by the real number it
  denotes, and an arithmetic operation by the exact operation followed by the rounding to
  the nearest double, a tie going to the double with the even mantissa. Comparisons of
  doubles are exact. A decimal literal of the source denotes the double nearest to it.
\<close>

definition pow2 :: "int \<Rightarrow> real" where
  "pow2 e = (if 0 \<le> e then 2 ^ nat e else 1 / 2 ^ nat (- e))"

text \<open>The exponent \<open>e\<close> of a positive number \<open>x\<close>, with \<open>2 ^ e \<le> x < 2 ^ (e + 1)\<close>, found by
  halving or doubling \<open>x\<close>. The exponent of a double lies between -1022 and 1023; below
  \<open>2 ^ -1022\<close> the doubles are the subnormal numbers, which share the exponent -1022.\<close>

fun exponent_up :: "nat \<Rightarrow> real \<Rightarrow> int" where
  "exponent_up 0 x = 0"
| "exponent_up (Suc n) x = (if x < 2 then 0 else exponent_up n (x / 2) + 1)"

fun exponent_down :: "nat \<Rightarrow> real \<Rightarrow> int" where
  "exponent_down 0 x = 0"
| "exponent_down (Suc n) x = (if 1 \<le> x then 0 else exponent_down n (2 * x) - 1)"

definition exponent :: "real \<Rightarrow> int" where
  "exponent x = (if 1 \<le> x then exponent_up 1023 x else exponent_down 1022 x)"

text \<open>The distance between the doubles around \<open>x\<close>: a mantissa has 53 bits.\<close>

definition ulp :: "real \<Rightarrow> real" where
  "ulp x = pow2 (exponent x - 52)"

text \<open>The integer nearest to \<open>x\<close>, the even one of the two when \<open>x\<close> lies halfway.\<close>

definition round_half_even :: "real \<Rightarrow> int" where
  "round_half_even x =
     (let n = \<lfloor>x\<rfloor>; r = x - of_int n
      in if r < 1 / 2 then n else if 1 / 2 < r then n + 1 else if even n then n else n + 1)"

text \<open>The double nearest to \<open>x\<close>. Numbers of magnitude \<open>2 ^ 1024\<close> and more, which round to
  an infinity, do not occur in the computations below.\<close>

definition round_double :: "real \<Rightarrow> real" where
  "round_double x =
     (if x = 0 then 0
      else if x < 0 then - (of_int (round_half_even (- x / ulp (- x))) * ulp (- x))
      else of_int (round_half_even (x / ulp x)) * ulp x)"

text \<open>The operators \<open>+\<close>, \<open>*\<close> and \<open>/\<close> on doubles (the divisor is not zero where \<open>/\<close> is
  used below).\<close>

definition js_add :: "real \<Rightarrow> real \<Rightarrow> real" where
  "js_add a b = round_double (a + b)"

definition js_mul :: "real \<Rightarrow> real \<Rightarrow> real" where
  "js_mul a b = round_double (a * b)"

definition js_div :: "real \<Rightarrow> real \<Rightarrow> real" where
  "js_div a b = round_double (a / b)"

section \<open>PNGCompressorAdvanced.findOptimalQuality\<close>

text \<open>
  The \<open>for (const quality of qualityLevels)\<close> loop with its early \<open>return\<close>. The second
  component of the result is the list of qualities handed to \<open>canvasToBlob\<close> so far, in
  call order.
\<close>

fun probe_levels ::
  "encoder \<Rightarrow> nat \<Rightarrow> real list \<Rightarrow> real list \<Rightarrow> (error + CompressedImageResult option) \<times> real list"
where
  "probe_levels enc targetSize [] probes = (Inr None, probes)"
| "probe_levels enc targetSize (q # qs) probes =
     (case enc q of
        Inl e \<Rightarrow> (Inl e, probes @ [q])
      | Inr (b, u) \<Rightarrow>
          if blob_size b \<le> targetSize
          then (Inr (Some \<lparr>blob = b, dataUrl = u, quality = q\<rparr>), probes @ [q])
          else probe_levels enc targetSize qs (probes @ [q]))"

definition qualityLevels :: "real list" where
  "qualityLevels = [0.8, 0.6, 0.4, 0.2]"

definition png_findOptimalQuality ::
  "encoder \<Rightarrow> nat \<Rightarrow> (error + CompressedImageResult) \<times> real list"
where
  "png_findOptimalQuality enc targetSize =
     (case probe_levels enc targetSize qualityLevels [] of
        (Inl e, probes) \<Rightarrow> (Inl e, probes)
      | (Inr (Some r), probes) \<Rightarrow> (Inr r, probes)
      | (Inr None, probes) \<Rightarrow>
          (case enc 0.1 of
             Inl e \<Rightarrow> (Inl e, probes @ [0.1])
           | Inr (b, u) \<Rightarrow> (Inr \<lparr>blob = b, dataUrl = u, quality = 0.1\<rparr>, probes @ [0.1])))"

section \<open>Binary search for the JPEG quality\<close>

text \<open>
  The loop variables of both JPEG searches. \<open>best\<close> holds \<open>bestBlob\<close> and \<open>bestDataUrl\<close>,
  which the source assigns together; \<open>canvas.toDataURL\<close> returns a string starting with
  \<open>data:\<close>, so \<open>!bestBlob || !bestDataUrl\<close> holds exactly when nothing was recorded,
  that is when \<open>best\<close> is \<open>None\<close>. \<open>iteration\<close> is the counter of
  \<open>JPEGCompressorAdvanced.findOptimalQuality\<close>; in the simple compressor, which has no such
  variable, it counts the passes through the loop body.
\<close>

record search_state =
  minQuality :: real
  maxQuality :: real
  bestQuality :: real
  best :: "(Blob \<times> string) option"
  iteration :: nat

text \<open>
  An \<open>async\<close> function returns a promise: \<open>Some (Inr v)\<close> is a promise fulfilled with
  \<open>v\<close>, \<open>Some (Inl e)\<close> one rejected with \<open>e\<close>, and \<open>None\<close> one that never settles.
\<close>

type_synonym 'a promise = "(error + 'a) option"

subsection \<open>JPEGCompressor.compress\<close>

text \<open>
  The \<open>while (maxQuality - minQuality > this.QUALITY_PRECISION)\<close> loop. The precision and
  the target are arguments, instantiated with the class constants in \<open>compress\<close> below.
  Nothing in the loop bounds the number of passes, so the loop is a partial function: the
  value \<open>None\<close> stands for a loop that runs forever.
\<close>

partial_function (option) search_loop ::
  "encoder \<Rightarrow> nat \<Rightarrow> real \<Rightarrow> search_state \<Rightarrow> (error + search_state) option"
where
  "search_loop enc target precision s =
     (if maxQuality s - minQuality s > precision then
        (case enc ((minQuality s + maxQuality s) / 2) of
           Inl e \<Rightarrow> Some (Inl e)
         | Inr (b, u) \<Rightarrow>
             if blob_size b \<le> target
             then search_loop enc target precision
                    (s\<lparr>bestQuality := (minQuality s + maxQuality s) / 2,
                       best := Some (b, u),
                       minQuality := (minQuality s + maxQuality s) / 2,
                       iteration := iteration s + 1\<rparr>)
             else search_loop enc target precision
                    (s\<lparr>maxQuality := (minQuality s + maxQuality s) / 2,
                       iteration := iteration s + 1\<rparr>))
      else Some (Inr s))"

declare search_loop.simps [code]

text \<open>The search of \<open>compress\<close>: the initial loop variables, the loop, and the last resort at
  the minimum quality, which throws when even that encoding is too large.\<close>

definition binary_search ::
  "encoder \<Rightarrow> nat \<Rightarrow> real \<Rightarrow> real \<Rightarrow> real \<Rightarrow> CompressedImageResult promise"
where
  "binary_search enc target lo hi precision =
     (case search_loop enc target precision
             \<lparr>minQuality = lo, maxQuality = hi, bestQuality = hi, best = None, iteration = 0\<rparr> of
        None \<Rightarrow> None
      | Some (Inl e) \<Rightarrow> Some (Inl e)
      | Some (Inr s) \<Rightarrow>
          (case best s of
             Some (b, u) \<Rightarrow> Some (Inr \<lparr>blob = b, dataUrl = u, quality = bestQuality s\<rparr>)
           | None \<Rightarrow>
               (case enc lo of
                  Inl e \<Rightarrow> Some (Inl e)
                | Inr (b, u) \<Rightarrow>
                    if blob_size b \<le> target
                    then Some (Inr \<lparr>blob = b, dataUrl = u, quality = lo\<rparr>)
                    else Some (Inl (Error ''Could not compress image to target size'')))))"

definition supportedTypes :: "string list" where
  "supportedTypes = [''image/jpeg'', ''image/jpg'']"

definition TARGET_SIZE :: nat where
  "TARGET_SIZE = 100 * 1024"

definition MIN_QUALITY :: real where
  "MIN_QUALITY = 0.1"

definition MAX_QUALITY :: real where
  "MAX_QUALITY = 0.95"

definition QUALITY_PRECISION :: real where
  "QUALITY_PRECISION = 0.01"

text \<open>
  What \<open>compress\<close> asks of the browser: reading the file as a data URL, decoding it to an
  image (of which only the dimensions are read), getting the 2d context of a canvas of
  the given size, and encoding the canvas, on which the image is drawn at the given size,
  at a quality.
\<close>

record HTMLImageElement =
  naturalWidth :: nat
  naturalHeight :: nat

record browser =
  fileToDataURL :: "File \<Rightarrow> error + string"
  createImageFromFile :: "File \<Rightarrow> error + HTMLImageElement"
  getContext :: "nat \<Rightarrow> nat \<Rightarrow> bool"
  canvasToBlob :: "HTMLImageElement \<Rightarrow> nat \<Rightarrow> nat \<Rightarrow> encoder"

text \<open>The canvas size: images of files above 5MB with a side above 3000 are scaled so
  that the longer side is 2000. The scale is a quotient of doubles and each side a product
  of doubles, which \<open>Math.round\<close> rounds to the nearest integer, a half upwards, as
  \<open>round\<close> does.\<close>

definition canvas_size :: "File \<Rightarrow> HTMLImageElement \<Rightarrow> nat \<times> nat" where
  "canvas_size file img =
     (let width = naturalWidth img; height = naturalHeight img in
      if blob_size file > 5 * 1024 * 1024 \<and> (width > 3000 \<or> height > 3000)
      then (let scale = js_div 2000 (real (max width height))
            in (nat (round (js_mul (real width) scale)),
                nat (round (js_mul (real height) scale))))
      else (width, height))"

definition JPEGCompressor_compress :: "browser \<Rightarrow> File \<Rightarrow> CompressedImageResult promise" where
  "JPEGCompressor_compress env file =
     (if mime file \<notin> set supportedTypes
      then Some (Inl (Error ''Unsupported file type. Only JPEG/JPG files are supported.''))
      else if blob_size file \<le> TARGET_SIZE
      then (case fileToDataURL env file of
              Inl e \<Rightarrow> Some (Inl e)
            | Inr url \<Rightarrow> Some (Inr \<lparr>blob = file, dataUrl = url, quality = 1.0\<rparr>))
      else (case createImageFromFile env file of
              Inl e \<Rightarrow> Some (Inl e)
            | Inr img \<Rightarrow>
                (case canvas_size file img of
                   (width, height) \<Rightarrow>
                     if \<not> getContext env width height
                     then Some (Inl (Error ''Could not get canvas context''))
                     else binary_search (canvasToBlob env img width height) TARGET_SIZE
                            MIN_QUALITY MAX_QUALITY QUALITY_PRECISION)))"

subsection \<open>JPEGCompressorAdvanced.findOptimalQuality\<close>

text \<open>\<open>Math.ceil(Math.log2((MAX_QUALITY - MIN_QUALITY) / QUALITY_PRECISION)) + 2\<close>.\<close>

definition maxIterations :: "real \<Rightarrow> real \<Rightarrow> real \<Rightarrow> int" where
  "maxIterations lo hi precision = \<lceil>log 2 ((hi - lo) / precision)\<rceil> + 2"

text \<open>
  The loop of \<open>findOptimalQuality\<close>, with its iteration cap in the loop condition and its
  \<open>break\<close> once a probe is recorded and the interval is narrower than 0.03 or the
  iteration count has reached the cap minus one.
\<close>

function capped_search_loop ::
  "encoder \<Rightarrow> nat \<Rightarrow> real \<Rightarrow> int \<Rightarrow> search_state \<Rightarrow> error + search_state"
where
  "capped_search_loop enc target precision cap s =
     (if maxQuality s - minQuality s > precision \<and> int (iteration s) < cap then
        (case enc ((minQuality s + maxQuality s) / 2) of
           Inl e \<Rightarrow> Inl e
         | Inr (b, u) \<Rightarrow>
             (let s' = (if blob_size b \<le> target
                        then s\<lparr>bestQuality := (minQuality s + maxQuality s) / 2,
                               best := Some (b, u),
                               minQuality := (minQuality s + maxQuality s) / 2,
                               iteration := iteration s + 1\<rparr>
                        else s\<lparr>maxQuality := (minQuality s + maxQuality s) / 2,
                               iteration := iteration s + 1\<rparr>)
              in if best s' \<noteq> None \<and>
                    (maxQuality s' - minQuality s' < 0.03 \<or> int (iteration s') \<ge> cap - 1)
                 then Inr s'
                 else capped_search_loop enc target precision cap s'))
      else Inr s)"
  by pat_completeness auto
termination
  by (relation "measure (\<lambda>(enc, target, precision, cap, s). nat (cap - int (iteration s)))")
     (auto split: if_splits)

text \<open>
  \<open>findOptimalQuality(canvas, targetSize)\<close>. \<open>progressive\<close> is the promise returned by
  \<open>this.compressWithProgressiveJPEG(canvas, targetSize)\<close>, which settles with what the worker
  answers and has no timeout of its own.
\<close>

definition capped_binary_search ::
  "encoder \<Rightarrow> CompressedImageResult promise \<Rightarrow> nat \<Rightarrow> real \<Rightarrow> real \<Rightarrow> real
     \<Rightarrow> CompressedImageResult promise"
where
  "capped_binary_search enc progressive targetSize lo hi precision =
     (case enc hi of
        Inl e \<Rightarrow> Some (Inl e)
      | Inr (mb, mu) \<Rightarrow>
          if blob_size mb \<le> targetSize
          then Some (Inr \<lparr>blob = mb, dataUrl = mu, quality = hi\<rparr>)
          else
            (case capped_search_loop enc targetSize precision (maxIterations lo hi precision)
                    \<lparr>minQuality = lo, maxQuality = hi, bestQuality = lo, best = None,
                     iteration = 0\<rparr> of
               Inl e \<Rightarrow> Some (Inl e)
             | Inr s \<Rightarrow>
                 (case best s of
                    Some (b, u) \<Rightarrow> Some (Inr \<lparr>blob = b, dataUrl = u, quality = bestQuality s\<rparr>)
                  | None \<Rightarrow>
                      (case enc lo of
                         Inl e \<Rightarrow> Some (Inl e)
                       | Inr (b, u) \<Rightarrow>
                           if blob_size b \<le> targetSize
                           then Some (Inr \<lparr>blob = b, dataUrl = u, quality = lo\<rparr>)
                           else (case progressive of
                                   None \<Rightarrow> None
                                 | Some (Inr r) \<Rightarrow> Some (Inr r)
                                 | Some (Inl e) \<Rightarrow>
                                     Some (Inr \<lparr>blob = b, dataUrl = u, quality = lo\<rparr>))))))"

definition findOptimalQuality ::
  "encoder \<Rightarrow> CompressedImageResult promise \<Rightarrow> nat \<Rightarrow> CompressedImageResult promise"
where
  "findOptimalQuality enc progressive targetSize =
     capped_binary_search enc progressive targetSize 0.1 0.95 0.01"

subsection \<open>One pass of the loop body, and what a run of the loop establishes\<close>

text \<open>The state after one pass through the body of either loop, when the probe at the
  midpoint returned \<open>(b, u)\<close>.\<close>

definition probed :: "nat \<Rightarrow> search_state \<Rightarrow> Blob \<Rightarrow> string \<Rightarrow> search_state" where
  "probed target s b u =
     (if blob_size b \<le> target
      then s\<lparr>bestQuality := (minQuality s + maxQuality s) / 2,
             best := Some (b, u),
             minQuality := (minQuality s + maxQuality s) / 2,
             iteration := iteration s + 1\<rparr>
      else s\<lparr>maxQuality := (minQuality s + maxQuality s) / 2,
             iteration := iteration s + 1\<rparr>)"

text \<open>
  The relation between the loop variables \<open>s\<close> at some pass and \<open>s'\<close> at a later one:
  the interval has been halved once per pass and stays inside the earlier one, and either
  no probe in between met the target (the record and the lower end are unchanged), or the
  recorded probe is the encoding at \<open>bestQuality\<close>, meets the target, and
  \<open>bestQuality\<close> is the lower end of the interval.
\<close>

definition search_post :: "encoder \<Rightarrow> nat \<Rightarrow> search_state \<Rightarrow> search_state \<Rightarrow> bool" where
  "search_post enc target s s' \<longleftrightarrow>
     iteration s \<le> iteration s' \<and>
     maxQuality s' - minQuality s' =
       (maxQuality s - minQuality s) / 2 ^ (iteration s' - iteration s) \<and>
     minQuality s \<le> minQuality s' \<and> maxQuality s' \<le> maxQuality s \<and>
     ((best s' = best s \<and> bestQuality s' = bestQuality s \<and> minQuality s' = minQuality s) \<or>
      (\<exists>b u. best s' = Some (b, u) \<and> enc (bestQuality s') = Inr (b, u) \<and>
         blob_size b \<le> target \<and> bestQuality s' = minQuality s'))"

subsection \<open>Concrete encoders\<close>

text \<open>An encoder that never fails and returns, at quality \<open>q\<close>, a blob of \<open>f q\<close> zero bytes.\<close>

definition blob_of_size :: "nat \<Rightarrow> Blob" where
  "blob_of_size n = \<lparr>bytes = replicate n 0, mime = ''image/jpeg''\<rparr>"

definition encoder_of_sizes :: "(real \<Rightarrow> nat) \<Rightarrow> encoder" where
  "encoder_of_sizes f q = Inr (blob_of_size (f q), ''data:image/jpeg;base64,'')"

text \<open>A browser that reads every file, decodes it to a 640 by 480 image, provides a context for
  every canvas, and encodes with the given encoder whatever the canvas holds.\<close>

definition browser_with :: "encoder \<Rightarrow> browser" where
  "browser_with enc =
     \<lparr>fileToDataURL = (\<lambda>f. Inr ''data:image/jpeg;base64,''),
      createImageFromFile = (\<lambda>f. Inr \<lparr>naturalWidth = 640, naturalHeight = 480\<rparr>),
      getContext = (\<lambda>w h. True),
      canvasToBlob = (\<lambda>img w h. enc)\<rparr>"

section \<open>Pixel data\<close>

text \<open>
  \<open>ImageData.data\<close> is a \<open>Uint8ClampedArray\<close>: a flat array of bytes, four per pixel in the
  order R, G, B, A. Reading an element gives a number from 0 to 255; storing a number
  clamps it to that range; a store outside the array is ignored and a read outside it
  gives \<open>undefined\<close>.
\<close>

type_synonym byte = "8 word"

definition clamp8 :: "nat \<Rightarrow> byte" where
  "clamp8 n = of_nat (min n 255)"

text \<open>\<open>Math.floor(v / level) * level\<close>, stored back into the array.\<close>

definition quantize :: "nat \<Rightarrow> byte \<Rightarrow> byte" where
  "quantize level v = clamp8 ((unat v div level) * level)"

text \<open>\<open>a < 128 ? 0 : 255\<close>.\<close>

definition binarize :: "byte \<Rightarrow> byte" where
  "binarize a = (if unat a < 128 then 0 else 255)"

subsection \<open>PNGCompressor.reduceColorsForGraphical\<close>

text \<open>
  The loop \<open>for (let i = 0; i < data.length; i += 4)\<close> visits the array four elements at a
  time. In a last group of fewer than four elements \<open>data[i + 3]\<close> is \<open>undefined\<close>, which is
  neither \<open>=== 0\<close> nor \<open>< 128\<close>: the elements present are quantized and the stores to the
  missing ones are ignored.
\<close>

fun reduceColorsForGraphical :: "byte list \<Rightarrow> byte list" where
  "reduceColorsForGraphical (r # g # b # a # rest) =
     (if a = 0 then r # g # b # a # reduceColorsForGraphical rest
      else quantize 8 r # quantize 8 g # quantize 8 b # binarize a #
           reduceColorsForGraphical rest)"
| "reduceColorsForGraphical rest = map (quantize 8) rest"

subsection \<open>PNGCompressorAdvanced.optimizeColorsForPNG\<close>

fun optimizeColors :: "nat \<Rightarrow> byte list \<Rightarrow> byte list" where
  "optimizeColors colorPrecision (r # g # b # a # rest) =
     (if unat a < 128 then 0 # 0 # 0 # 0 # optimizeColors colorPrecision rest
      else quantize colorPrecision r # quantize colorPrecision g # quantize colorPrecision b #
           255 # optimizeColors colorPrecision rest)"
| "optimizeColors colorPrecision rest = map (quantize colorPrecision) rest"

definition optimizeColorsForPNG :: "byte list \<Rightarrow> nat \<Rightarrow> nat \<Rightarrow> byte list" where
  "optimizeColorsForPNG data width height =
     optimizeColors (if width * height > 1000000 then 16 else 8) data"

section \<open>PNGCompressor.analyzeImageType\<close>

datatype image_type = Lineart | Photographic | Graphical | Mixed

text \<open>The counters of the sampling loop. \<open>uniqueColors\<close> is the \<open>Set\<close> of colour keys
  \<open>Math.floor(r / 5),Math.floor(g / 5),Math.floor(b / 5)\<close>.\<close>

record sample_stats =
  uniqueColors :: "(nat \<times> nat \<times> nat) set"
  edgeCount :: nat
  transparentPixels :: nat
  blackPixels :: nat
  whitePixels :: nat
  grayPixels :: nat
  coloredPixels :: nat

definition no_stats :: sample_stats where
  "no_stats = \<lparr>uniqueColors = {}, edgeCount = 0, transparentPixels = 0, blackPixels = 0,
               whitePixels = 0, grayPixels = 0, coloredPixels = 0\<rparr>"

text \<open>\<open>data\<close> is the \<open>ImageData\<close> of a canvas of \<open>sampleSize\<close> by \<open>sampleSize\<close> pixels, so it
  has \<open>4 * sampleSize * sampleSize\<close> elements and every index below is inside it.\<close>

definition channel :: "byte list \<Rightarrow> nat \<Rightarrow> nat" where
  "channel data i = unat (data ! i)"

text \<open>\<open>Math.abs(a - b)\<close> on numbers from 0 to 255.\<close>

definition absdiff :: "nat \<Rightarrow> nat \<Rightarrow> nat" where
  "absdiff a b = (if a < b then b - a else a - b)"

text \<open>The sum over R, G and B of the absolute differences between the pixels that start
  at the indices \<open>i\<close> and \<open>j\<close>.\<close>

definition colorDiff :: "byte list \<Rightarrow> nat \<Rightarrow> nat \<Rightarrow> nat" where
  "colorDiff data i j =
     absdiff (channel data i) (channel data j) +
     absdiff (channel data (i + 1)) (channel data (j + 1)) +
     absdiff (channel data (i + 2)) (channel data (j + 2))"

text \<open>The body of the two nested loops, at the sampled position \<open>(x, y)\<close>.\<close>

definition sample_pixel ::
  "byte list \<Rightarrow> nat \<Rightarrow> nat \<Rightarrow> nat \<Rightarrow> nat \<Rightarrow> sample_stats \<Rightarrow> sample_stats"
where
  "sample_pixel data sampleSize stride y x st =
     (let i = (y * sampleSize + x) * 4;
          st1 = (if channel data (i + 3) < 255
                 then st\<lparr>transparentPixels := transparentPixels st + 1\<rparr> else st)
      in if channel data (i + 3) = 0 then st1
         else
           (let r = channel data i; g = channel data (i + 1); b = channel data (i + 2);
                st2 = (if r < 30 \<and> g < 30 \<and> b < 30
                       then st1\<lparr>blackPixels := blackPixels st1 + 1\<rparr>
                       else if r > 225 \<and> g > 225 \<and> b > 225
                       then st1\<lparr>whitePixels := whitePixels st1 + 1\<rparr>
                       else if absdiff r g < 20 \<and> absdiff r b < 20 \<and> absdiff g b < 20
                       then st1\<lparr>grayPixels := grayPixels st1 + 1\<rparr>
                       else st1\<lparr>coloredPixels := coloredPixels st1 + 1\<rparr>);
                st3 = st2\<lparr>uniqueColors := insert (r div 5, g div 5, b div 5) (uniqueColors st2)\<rparr>
            in if x + stride < sampleSize \<and> y + stride < sampleSize
               then
                 (let rightIdx = (y * sampleSize + (x + stride)) * 4;
                      bottomIdx = ((y + stride) * sampleSize + x) * 4
                  in if colorDiff data i rightIdx > 100 \<or> colorDiff data i bottomIdx > 100
                     then st3\<lparr>edgeCount := edgeCount st3 + 1\<rparr> else st3)
               else st3))"

text \<open>The values of a loop variable that starts at 0 and advances by \<open>stride\<close> while it is
  below \<open>n\<close>.\<close>

definition strided :: "nat \<Rightarrow> nat \<Rightarrow> nat list" where
  "strided n stride = filter (\<lambda>k. k mod stride = 0) [0..<n]"

definition sample_all :: "byte list \<Rightarrow> nat \<Rightarrow> nat \<Rightarrow> sample_stats" where
  "sample_all data sampleSize stride =
     fold (\<lambda>y st. fold (sample_pixel data sampleSize stride y) (strided sampleSize stride) st)
       (strided sampleSize stride) no_stats"

text \<open>The derived ratios: each is the quotient of two counts, a double.\<close>

record metrics =
  colorRatio :: real
  edgeRatio :: real
  blackWhiteRatio :: real
  grayRatio :: real
  hasTransparency :: bool

definition metrics_of :: "sample_stats \<Rightarrow> nat \<Rightarrow> metrics" where
  "metrics_of st totalSampledPixels =
     \<lparr>colorRatio = js_div (real (card (uniqueColors st))) (real totalSampledPixels),
      edgeRatio = js_div (real (edgeCount st)) (real totalSampledPixels),
      blackWhiteRatio = js_div (real (blackPixels st + whitePixels st)) (real totalSampledPixels),
      grayRatio = js_div (real (grayPixels st)) (real totalSampledPixels),
      hasTransparency = (transparentPixels st > 0)\<rparr>"

text \<open>The chain of \<open>if\<close> \<dots> \<open>else if\<close> that ends the method. The ratios are doubles, their
  sum is the sum of doubles, and the literals are the doubles nearest to them.\<close>

definition decide :: "metrics \<Rightarrow> image_type" where
  "decide m =
     (if (blackWhiteRatio m > round_double 0.8 \<or>
          js_add (blackWhiteRatio m) (grayRatio m) > round_double 0.9) \<and>
         edgeRatio m > round_double 0.05
      then Lineart
      else if colorRatio m > round_double 0.5 \<and> edgeRatio m < round_double 0.1
      then Photographic
      else if colorRatio m < round_double 0.2 \<or> edgeRatio m > round_double 0.2 \<or>
              hasTransparency m
      then Graphical
      else Mixed)"

text \<open>The metrics computed from the data of the sample canvas.\<close>

definition sample_metrics :: "nat \<Rightarrow> byte list \<Rightarrow> metrics" where
  "sample_metrics sampleSize data =
     (let stride = max 1 (sampleSize div 50);
          totalSampledPixels = (sampleSize div stride) * (sampleSize div stride)
      in metrics_of (sample_all data sampleSize stride) totalSampledPixels)"

text \<open>
  \<open>analyzeImageType(img)\<close>. The browser provides the 2d context of the sample canvas (or
  \<open>null\<close>) and, through \<open>drawImage\<close> and \<open>getImageData\<close>, the pixels of the image scaled to
  the sample size; \<open>getImageData\<close> throws for a canvas without pixels.
\<close>

record sampler =
  sampleContext :: "nat \<Rightarrow> bool"
  samplePixels :: "HTMLImageElement \<Rightarrow> nat \<Rightarrow> byte list"

definition analyzeImageType :: "sampler \<Rightarrow> HTMLImageElement \<Rightarrow> error + image_type" where
  "analyzeImageType env img =
     (let sampleSize = min (min (naturalWidth img) (naturalHeight img)) 300
      in if \<not> sampleContext env sampleSize then Inl (Error ''Could not get canvas context'')
         else if sampleSize = 0 then Inl (Error ''IndexSizeError'')
         else Inr (decide (sample_metrics sampleSize (samplePixels env img sampleSize))))"

subsection \<open>The decision table of the specification\<close>

text \<open>The rules in the words of the specification: a list of conditions with their
  results, of which the first that holds decides, and \<open>mixed\<close> when none holds. The
  conditions are on the numbers of the program: \<open>blackWhiteRatio + grayRatio\<close> is the sum
  of two doubles, and a threshold is the double that its literal denotes.\<close>

definition decision_table :: "((metrics \<Rightarrow> bool) \<times> image_type) list" where
  "decision_table =
     [(\<lambda>m. (blackWhiteRatio m > round_double 0.8 \<or>
            js_add (blackWhiteRatio m) (grayRatio m) > round_double 0.9) \<and>
           edgeRatio m > round_double 0.05,
       Lineart),
      (\<lambda>m. colorRatio m > round_double 0.5 \<and> edgeRatio m < round_double 0.1, Photographic),
      (\<lambda>m. colorRatio m < round_double 0.2 \<or> edgeRatio m > round_double 0.2 \<or>
            hasTransparency m,
       Graphical)]"

fun first_match :: "(('a \<Rightarrow> bool) \<times> 'b) list \<Rightarrow> 'b \<Rightarrow> 'a \<Rightarrow> 'b" where
  "first_match [] d m = d"
| "first_match ((cond, res) # rules) d m = (if cond m then res else first_match rules d m)"

text \<open>A sampler that provides a context for every canvas and whose sample is a checkerboard of
  two black and two white opaque pixels.\<close>

definition checkerboard :: "byte list" where
  "checkerboard = [0, 0, 0, 255,  255, 255, 255, 255,  255, 255, 255, 255,  0, 0, 0, 255]"

definition checkerboard_sampler :: sampler where
  "checkerboard_sampler = \<lparr>sampleContext = (\<lambda>n. True), samplePixels = (\<lambda>img n. checkerboard)\<rparr>"

text \<open>A sample of ten by ten opaque pixels, row by row: 56 black, 34 gray and 10 red
  ones.\<close>

definition black_gray_red :: "byte list" where
  "black_gray_red =
     concat (replicate 56 [0, 0, 0, 255]) @ concat (replicate 34 [128, 128, 128, 255]) @
     concat (replicate 10 [255, 0, 0, 255])"

definition black_gray_red_sampler :: sampler where
  "black_gray_red_sampler =
     \<lparr>sampleContext = (\<lambda>n. True), samplePixels = (\<lambda>img n. black_gray_red)\<rparr>"

section \<open>The entry points of the PNG compressors\<close>

subsection \<open>PNGCompressor.compress\<close>

text \<open>
  The four strategy methods, each of which takes the decoded image and the size of the
  file, are arguments of the model of \<open>compress\<close>; so are the reading of the file as a data
  URL and its decoding.
\<close>

record png_methods =
  pngFileToDataURL :: "File \<Rightarrow> error + string"
  pngCreateImageFromFile :: "File \<Rightarrow> error + HTMLImageElement"
  compressLineArt :: "HTMLImageElement \<Rightarrow> nat \<Rightarrow> CompressedImageResult promise"
  compressPhotographicPNG :: "HTMLImageElement \<Rightarrow> nat \<Rightarrow> CompressedImageResult promise"
  compressGraphicalPNG :: "HTMLImageElement \<Rightarrow> nat \<Rightarrow> CompressedImageResult promise"
  compressHybridPNG :: "HTMLImageElement \<Rightarrow> nat \<Rightarrow> CompressedImageResult promise"

definition PNG_TARGET_SIZE :: nat where
  "PNG_TARGET_SIZE = 200 * 1024"

definition PNGCompressor_compress ::
  "png_methods \<Rightarrow> sampler \<Rightarrow> File \<Rightarrow> CompressedImageResult promise"
where
  "PNGCompressor_compress this env file =
     (if mime file \<notin> set [''image/png'']
      then Some (Inl (Error ''Unsupported file type. Only PNG files are supported.''))
      else if blob_size file \<le> PNG_TARGET_SIZE
      then (case pngFileToDataURL this file of
              Inl e \<Rightarrow> Some (Inl e)
            | Inr url \<Rightarrow> Some (Inr \<lparr>blob = file, dataUrl = url, quality = 1.0\<rparr>))
      else (case pngCreateImageFromFile this file of
              Inl e \<Rightarrow> Some (Inl e)
            | Inr img \<Rightarrow>
                (case analyzeImageType env img of
                   Inl e \<Rightarrow> Some (Inl e)
                 | Inr Lineart \<Rightarrow> compressLineArt this img (blob_size file)
                 | Inr Photographic \<Rightarrow> compressPhotographicPNG this img (blob_size file)
                 | Inr Graphical \<Rightarrow> compressGraphicalPNG this img (blob_size file)
                 | Inr Mixed \<Rightarrow> compressHybridPNG this img (blob_size file))))"

subsection \<open>PNGCompressorAdvanced.compress\<close>

text \<open>
  The strategies that \<open>compress\<close> sequences, each taking the file and the internal target
  size, and the promise of the worker pool's initialization are arguments of the model.
  \<open>options?.targetSize || this.TARGET_SIZE_BASE\<close> is the base size when the option is
  missing or 0. The message of the size error leaves out the formatted size of the file.
\<close>

record advanced_methods =
  advFileToDataURL :: "File \<Rightarrow> error + string"
  workerInitPromise :: "unit promise"
  compressLargeImage :: "File \<Rightarrow> nat \<Rightarrow> CompressedImageResult promise"
  compressWithDownscaling :: "File \<Rightarrow> nat \<Rightarrow> CompressedImageResult promise"
  compressWithQualityPreservation :: "File \<Rightarrow> nat \<Rightarrow> CompressedImageResult promise"
  compressWithSimpleApproach :: "File \<Rightarrow> nat \<Rightarrow> CompressedImageResult promise"
  compressWithSimpleTiling :: "File \<Rightarrow> nat \<Rightarrow> CompressedImageResult promise"

definition TARGET_SIZE_BASE :: nat where
  "TARGET_SIZE_BASE = 200 * 1024"

definition MAX_SIZE :: nat where
  "MAX_SIZE = 50 * 1024 * 1024"

definition message :: "error \<Rightarrow> string" where
  "message e = (case e of Error m \<Rightarrow> m)"

text \<open>\<open>s.includes(t)\<close>.\<close>

definition str_includes :: "string \<Rightarrow> string \<Rightarrow> bool" where
  "str_includes s t = sublist t s"

definition targetSizeInternal :: "File \<Rightarrow> nat" where
  "targetSizeInternal file =
     (if blob_size file > 15 * 1024 * 1024 then 400 * 1024
      else if blob_size file > 8 * 1024 * 1024 then 300 * 1024
      else if blob_size file > 3 * 1024 * 1024 then 250 * 1024
      else TARGET_SIZE_BASE)"

text \<open>The \<open>catch\<close> of the primary strategy: the alternative chosen by the message of the
  error, whose own failure is rethrown with a prefixed message.\<close>

definition fallback ::
  "advanced_methods \<Rightarrow> File \<Rightarrow> error \<Rightarrow> CompressedImageResult promise"
where
  "fallback this file err =
     (case (if str_includes (message err) ''worker'' \<or> str_includes (message err) ''WASM''
            then compressWithSimpleApproach this file (targetSizeInternal file)
            else compressWithSimpleTiling this file (targetSizeInternal file)) of
        None \<Rightarrow> None
      | Some (Inr r) \<Rightarrow> Some (Inr r)
      | Some (Inl fallbackError) \<Rightarrow>
          Some (Inl (Error (''Advanced PNG compression failed after trying fallback methods: ''
                            @ message fallbackError))))"

definition PNGCompressorAdvanced_compress ::
  "advanced_methods \<Rightarrow> File \<Rightarrow> nat option \<Rightarrow> CompressedImageResult promise"
where
  "PNGCompressorAdvanced_compress this file optionsTargetSize =
     (if mime file \<notin> set [''image/png'']
      then Some (Inl (Error ''Unsupported file type. Only PNG files are supported.''))
      else if blob_size file > MAX_SIZE
      then Some (Inl (Error ''File size exceeds maximum supported size (50MB)''))
      else
        (let targetSize = (case optionsTargetSize of
                             None \<Rightarrow> TARGET_SIZE_BASE
                           | Some t \<Rightarrow> if t = 0 then TARGET_SIZE_BASE else t)
         in if blob_size file \<le> targetSize
            then (case advFileToDataURL this file of
                    Inl e \<Rightarrow> Some (Inl e)
                  | Inr url \<Rightarrow> Some (Inr \<lparr>blob = file, dataUrl = url, quality = 1.0\<rparr>))
            else
              (case workerInitPromise this of
                 None \<Rightarrow> None
               | Some (Inl e) \<Rightarrow> Some (Inl e)
               | Some (Inr _) \<Rightarrow>
                   if blob_size file > 10 * 1024 * 1024
                   then compressLargeImage this file (targetSizeInternal file)
                   else
                     (case (if blob_size file > 5 * 1024 * 1024
                            then compressWithDownscaling this file (targetSizeInternal file)
                            else compressWithQualityPreservation this file
                                   (targetSizeInternal file)) of
                        None \<Rightarrow> None
                      | Some (Inr r) \<Rightarrow> Some (Inr r)
                      | Some (Inl err) \<Rightarrow> fallback this file err))))"

subsection \<open>Concrete files\<close>

text \<open>A file of \<open>n\<close> zero bytes with the given MIME type.\<close>

definition file_of :: "string \<Rightarrow> nat \<Rightarrow> File" where
  "file_of m n = \<lparr>bytes = replicate n 0, mime = m\<rparr>"

section \<open>The worker pool of PNGCompressorAdvanced\<close>

text \<open>A pooled worker; the \<open>Worker\<close> object itself is identified with its \<open>id\<close>.\<close>

record PooledWorker =
  worker_id :: nat
  busy :: bool
  lastUsed :: nat

text \<open>\<open>releaseWorker(worker)\<close>: the first worker of the pool with the same id is marked idle.
  \<open>now\<close> is \<open>Date.now()\<close>.\<close>

fun releaseWorker :: "PooledWorker list \<Rightarrow> nat \<Rightarrow> nat \<Rightarrow> PooledWorker list" where
  "releaseWorker [] wid now = []"
| "releaseWorker (w # ws) wid now =
     (if worker_id w = wid then w\<lparr>busy := False, lastUsed := now\<rparr> # ws
      else w # releaseWorker ws wid now)"

text \<open>Marking the first idle worker busy, as \<open>getWorker\<close> does with the worker that
  \<open>find((w) => !w.busy)\<close> returns.\<close>

fun acquire :: "PooledWorker list \<Rightarrow> nat \<Rightarrow> (PooledWorker \<times> PooledWorker list) option" where
  "acquire [] now = None"
| "acquire (w # ws) now =
     (if \<not> busy w then Some (w\<lparr>busy := True, lastUsed := now\<rparr>, w\<lparr>busy := True, lastUsed := now\<rparr> # ws)
      else (case acquire ws now of
              None \<Rightarrow> None
            | Some (a, ws') \<Rightarrow> Some (a, w # ws')))"

text \<open>
  \<open>getWorker()\<close> for a task that runs alone: an idle worker is taken; below the maximum a new
  worker is created (\<open>created\<close> is how \<open>createWorker\<close> settles) and taken; at the maximum the
  method polls for a worker to become idle, which never happens when no other task
  releases one.
\<close>

definition getWorker ::
  "PooledWorker list \<Rightarrow> nat \<Rightarrow> (error + unit) \<Rightarrow> nat \<Rightarrow> (PooledWorker \<times> PooledWorker list) promise"
where
  "getWorker pool maxWorkers created now =
     (case acquire pool now of
        Some (w, pool') \<Rightarrow> Some (Inr (w, pool'))
      | None \<Rightarrow>
          if length pool < maxWorkers
          then (case created of
                  Inl e \<Rightarrow> Some (Inl e)
                | Inr _ \<Rightarrow>
                    Some (Inr (\<lparr>worker_id = length pool, busy = True, lastUsed = now\<rparr>,
                               pool @ [\<lparr>worker_id = length pool, busy = True, lastUsed = now\<rparr>])))
          else None)"

subsection \<open>A task dispatched to a pooled worker\<close>

text \<open>
  What happens after the promise of \<open>compressWithPngEncoder\<close> or
  \<open>compressWithQualityPreservation\<close> has been created: the callback of \<open>canvas.toBlob\<close> runs,
  with \<open>null\<close>, or with a blob that is then posted to the worker, or with a blob whose
  \<open>arrayBuffer()\<close> or \<open>postMessage\<close> throws; the worker sends messages; the timer fires. Each
  is one event, and each handler runs to its end before the next event.
\<close>

datatype worker_message =
    ResultMessage CompressedImageResult
  | ErrorMessage "string option"
  | ProgressMessage nat

datatype event =
    BlobNull
  | BlobPosted
  | BlobThrows error
  | Message worker_message
  | Timeout

text \<open>
  The state of a task: the pool; the id of the worker the task acquired; whether
  \<open>messageHandler\<close> is registered on the worker; whether the timer is armed; and how the
  promise has settled, if it has (\<open>resolve\<close> and \<open>reject\<close> have no effect on a settled promise).
\<close>

record task =
  pool :: "PooledWorker list"
  acquired :: nat
  listening :: bool
  timer :: bool
  settled :: "(error + CompressedImageResult) option"

definition settle :: "error + CompressedImageResult \<Rightarrow> task \<Rightarrow> task" where
  "settle outcome t = (case settled t of None \<Rightarrow> t\<lparr>settled := Some outcome\<rparr> | Some _ \<Rightarrow> t)"

definition release :: "nat \<Rightarrow> task \<Rightarrow> task" where
  "release now t = t\<lparr>pool := releaseWorker (pool t) (acquired t) now\<rparr>"

text \<open>\<open>e.data.error || "Unknown error"\<close>.\<close>

definition error_of :: "string option \<Rightarrow> error" where
  "error_of m = (case m of None \<Rightarrow> Error ''Unknown error''
                | Some s \<Rightarrow> if s = [] then Error ''Unknown error'' else Error s)"

subsubsection \<open>compressWithPngEncoder\<close>

text \<open>The executor of the promise: the handler is registered, the timer of 10 seconds is
  armed and \<open>canvas.toBlob\<close> is called; if that call throws, the \<open>catch\<close> releases the worker
  and rejects.\<close>

definition pngEncoder_start :: "PooledWorker list \<Rightarrow> nat \<Rightarrow> error option \<Rightarrow> nat \<Rightarrow> task" where
  "pngEncoder_start p wid toBlobThrows now =
     (let t = \<lparr>pool = p, acquired = wid, listening = True, timer = True, settled = None\<rparr>
      in case toBlobThrows of
           None \<Rightarrow> t
         | Some e \<Rightarrow> settle (Inl e) (release now t))"

fun pngEncoder_step :: "nat \<Rightarrow> event \<Rightarrow> task \<Rightarrow> task" where
  "pngEncoder_step now BlobNull t =
     settle (Inl (Error ''Failed to convert canvas to blob'')) (t\<lparr>timer := False\<rparr>)"
| "pngEncoder_step now BlobPosted t = t"
| "pngEncoder_step now (BlobThrows e) t =
     settle (Inl e) (release now (t\<lparr>timer := False, listening := False\<rparr>))"
| "pngEncoder_step now (Message (ResultMessage r)) t =
     (if listening t then settle (Inr r) (release now (t\<lparr>listening := False\<rparr>)) else t)"
| "pngEncoder_step now (Message (ErrorMessage m)) t =
     (if listening t then settle (Inl (error_of m)) (release now (t\<lparr>listening := False\<rparr>))
      else t)"
| "pngEncoder_step now (Message (ProgressMessage n)) t = t"
| "pngEncoder_step now Timeout t =
     (if timer t
      then settle (Inl (Error ''PNG encoder compression timed out''))
             (release now (t\<lparr>timer := False, listening := False\<rparr>))
      else t)"

text \<open>A run: the events in the order in which they happen, each with the time at which it
  happens.\<close>

fun pngEncoder_run :: "(nat \<times> event) list \<Rightarrow> task \<Rightarrow> task" where
  "pngEncoder_run [] t = t"
| "pngEncoder_run ((now, ev) # evs) t = pngEncoder_run evs (pngEncoder_step now ev t)"

subsubsection \<open>compressWithQualityPreservation\<close>

text \<open>
  The executor registers the handler and calls \<open>canvas.toBlob\<close>; there is no timer, and no
  \<open>catch\<close> inside the executor, so a throwing \<open>canvas.toBlob\<close> rejects the promise. The
  callback of \<open>toBlob\<close> is an \<open>async\<close> function with no \<open>try\<close>: when \<open>arrayBuffer()\<close> or
  \<open>postMessage\<close> throws in it, nothing settles the promise.
\<close>

definition preservation_start :: "PooledWorker list \<Rightarrow> nat \<Rightarrow> error option \<Rightarrow> task" where
  "preservation_start p wid toBlobThrows =
     (let t = \<lparr>pool = p, acquired = wid, listening = True, timer = False, settled = None\<rparr>
      in case toBlobThrows of
           None \<Rightarrow> t
         | Some e \<Rightarrow> settle (Inl e) t)"

fun preservation_step :: "nat \<Rightarrow> event \<Rightarrow> task \<Rightarrow> task" where
  "preservation_step now BlobNull t =
     settle (Inl (Error ''Failed to convert canvas to blob'')) t"
| "preservation_step now BlobPosted t = t"
| "preservation_step now (BlobThrows e) t = t"
| "preservation_step now (Message (ResultMessage r)) t =
     (if listening t then settle (Inr r) (release now (t\<lparr>listening := False\<rparr>)) else t)"
| "preservation_step now (Message (ErrorMessage m)) t =
     (if listening t then settle (Inl (error_of m)) (release now (t\<lparr>listening := False\<rparr>))
      else t)"
| "preservation_step now (Message (ProgressMessage n)) t = t"
| "preservation_step now Timeout t = t"

fun preservation_run :: "(nat \<times> event) list \<Rightarrow> task \<Rightarrow> task" where
  "preservation_run [] t = t"
| "preservation_run ((now, ev) # evs) t = preservation_run evs (preservation_step now ev t)"

text \<open>Whether the worker with the given id is marked busy in the pool.\<close>

fun is_busy :: "PooledWorker list \<Rightarrow> nat \<Rightarrow> bool" where
  "is_busy [] wid = False"
| "is_busy (w # ws) wid = (if worker_id w = wid then busy w else is_busy ws wid)"

section \<open>Tiling\<close>

text \<open>A tile: the origin and the size of a rectangle of the image (the \<open>Tile\<close> interface; its
  fields carry the names of the loop's locals).\<close>

record Tile =
  tileX :: nat
  tileY :: nat
  tileWidth :: nat
  tileHeight :: nat

text \<open>\<open>Math.ceil(a / b)\<close>, as in \<open>tilesX = Math.ceil(img.width / TILE_SIZE)\<close>.\<close>

definition ceil_div :: "nat \<Rightarrow> nat \<Rightarrow> nat" where
  "ceil_div a b = nat \<lceil>real a / real b\<rceil>"

text \<open>The tile in column \<open>x\<close> and row \<open>y\<close> of the grid: origin \<open>(x * TILE_SIZE, y * TILE_SIZE)\<close>,
  size \<open>Math.min(TILE_SIZE, img.width - x * TILE_SIZE)\<close> by
  \<open>Math.min(TILE_SIZE, img.height - y * TILE_SIZE)\<close>.\<close>

definition tile_at :: "nat \<Rightarrow> nat \<Rightarrow> nat \<Rightarrow> nat \<Rightarrow> nat \<Rightarrow> Tile" where
  "tile_at w h T x y =
     \<lparr>tileX = x * T, tileY = y * T,
      tileWidth = min T (w - x * T), tileHeight = min T (h - y * T)\<rparr>"

text \<open>The tiles in the order of the loops of \<open>compressWithSimpleTiling\<close>:
  \<open>for (y = 0; y < tilesY; y++) for (x = 0; x < tilesX; x++)\<close>.\<close>

definition tiling :: "nat \<Rightarrow> nat \<Rightarrow> nat \<Rightarrow> Tile list" where
  "tiling w h T =
     concat (map (\<lambda>y. map (\<lambda>x. tile_at w h T x y) [0..<ceil_div w T]) [0..<ceil_div h T])"

text \<open>
  The columns in the order of \<open>compressWithTiling\<close>, which takes them in batches:
  \<open>for (x = 0; x < tilesX; x += BATCH_SIZE) for (i = 0; i < BATCH_SIZE && x + i < tilesX; i++)\<close>
  with the column \<open>x + i\<close>.
\<close>

function batched_columns :: "nat \<Rightarrow> nat \<Rightarrow> nat \<Rightarrow> nat list" where
  "batched_columns batch x tilesX =
     (if x < tilesX \<and> 0 < batch
      then map (\<lambda>i. x + i) (filter (\<lambda>i. x + i < tilesX) [0..<batch]) @
           batched_columns batch (x + batch) tilesX
      else [])"
  by pat_completeness auto
termination
  by (relation "measure (\<lambda>(batch, x, tilesX). tilesX - x)") auto

definition tiling_batched :: "nat \<Rightarrow> nat \<Rightarrow> nat \<Rightarrow> Tile list" where
  "tiling_batched w h T =
     concat (map (\<lambda>y. map (\<lambda>x. tile_at w h T x y) (batched_columns 4 0 (ceil_div w T)))
               [0..<ceil_div h T])"

text \<open>The tile edge that \<open>compressWithTiling\<close> chooses from the dimensions of the image.\<close>

definition TILE_SIZE :: "nat \<Rightarrow> nat \<Rightarrow> nat" where
  "TILE_SIZE w h =
     (if w > 6000 \<or> h > 4000 then 512 else if w > 4000 \<or> h > 3000 then 768 else 1024)"

subsection \<open>Pixel buffers and the canvas operations on them\<close>

text \<open>A buffer of \<open>rwidth\<close> by \<open>rheight\<close> pixels in row-major order. The type of a pixel is
  left open (on a canvas it is four bytes).\<close>

record 'p raster =
  rwidth :: nat
  rheight :: nat
  pixels :: "'p list"

definition well_formed :: "'p raster \<Rightarrow> bool" where
  "well_formed r \<longleftrightarrow> length (pixels r) = rwidth r * rheight r"

text \<open>\<open>getImageData(sx, sy, sw, sh)\<close> for a rectangle inside the buffer: the pixels of the
  rectangle, row by row.\<close>

definition getImageData :: "'p raster \<Rightarrow> nat \<Rightarrow> nat \<Rightarrow> nat \<Rightarrow> nat \<Rightarrow> 'p raster" where
  "getImageData src sx sy sw sh =
     \<lparr>rwidth = sw, rheight = sh,
      pixels = map (\<lambda>k. pixels src ! ((sy + k div sw) * rwidth src + (sx + k mod sw)))
                 [0..<sw * sh]\<rparr>"

text \<open>\<open>putImageData(img, dx, dy)\<close> for a rectangle inside the buffer: the pixels of the
  rectangle at \<open>(dx, dy)\<close> are replaced by those of \<open>img\<close>, the others are kept.\<close>

definition putImageData :: "'p raster \<Rightarrow> nat \<Rightarrow> nat \<Rightarrow> 'p raster \<Rightarrow> 'p raster" where
  "putImageData img dx dy dst =
     dst\<lparr>pixels :=
           map (\<lambda>p. let px = p mod rwidth dst; py = p div rwidth dst
                    in if dx \<le> px \<and> px < dx + rwidth img \<and> dy \<le> py \<and> py < dy + rheight img
                       then pixels img ! ((py - dy) * rwidth img + (px - dx))
                       else pixels dst ! p)
             [0..<length (pixels dst)]\<rparr>"

text \<open>
  The body of the tile loops, with the processing of a tile as an argument: the tile is
  read from \<open>src\<close>, processed, and written at its origin into \<open>dst\<close>. In
  \<open>compressWithTiling\<close> \<open>src\<close> is the decoded image and \<open>dst\<close> the full canvas; in
  \<open>compressWithSimpleTiling\<close> the tile is read from the full canvas itself.
\<close>

definition process_tile ::
  "('p raster \<Rightarrow> 'p raster) \<Rightarrow> 'p raster \<Rightarrow> Tile \<Rightarrow> 'p raster \<Rightarrow> 'p raster"
where
  "process_tile proc src t dst =
     putImageData (proc (getImageData src (tileX t) (tileY t) (tileWidth t) (tileHeight t)))
       (tileX t) (tileY t) dst"

definition process_tiles ::
  "('p raster \<Rightarrow> 'p raster) \<Rightarrow> 'p raster \<Rightarrow> Tile list \<Rightarrow> 'p raster \<Rightarrow> 'p raster"
where
  "process_tiles proc src ts dst = fold (process_tile proc src) ts dst"

definition process_tiles_in_place ::
  "('p raster \<Rightarrow> 'p raster) \<Rightarrow> Tile list \<Rightarrow> 'p raster \<Rightarrow> 'p raster"
where
  "process_tiles_in_place proc ts canvas = fold (\<lambda>t c. process_tile proc c t c) ts canvas"

text \<open>Whether the pixel \<open>(px, py)\<close> lies in the rectangle of a tile.\<close>

definition inside :: "Tile \<Rightarrow> nat \<Rightarrow> nat \<Rightarrow> bool" where
  "inside t px py \<longleftrightarrow>
     tileX t \<le> px \<and> px < tileX t + tileWidth t \<and> tileY t \<le> py \<and> py < tileY t + tileHeight t"

section \<open>PNGCompressor.reduceColorsAdaptive\<close>

text \<open>
  Reading an element as a number: \<open>None\<close> stands for \<open>undefined\<close>, the value of a read
  outside the array. Arithmetic on \<open>undefined\<close> gives \<open>NaN\<close>, every comparison with which
  is false.
\<close>

definition get :: "byte list \<Rightarrow> nat \<Rightarrow> nat option" where
  "get data i = (if i < length data then Some (unat (data ! i)) else None)"

text \<open>The sum over R, G and B of \<open>Math.abs(data[idx + c] - data[nidx + c])\<close>; \<open>None\<close> is
  \<open>NaN\<close>.\<close>

definition neighborDiff :: "byte list \<Rightarrow> nat \<Rightarrow> nat \<Rightarrow> nat option" where
  "neighborDiff data idx nidx =
     (case (get data idx, get data nidx) of
        (Some a, Some b) \<Rightarrow>
          (case (get data (idx + 1), get data (nidx + 1)) of
             (Some c, Some d) \<Rightarrow>
               (case (get data (idx + 2), get data (nidx + 2)) of
                  (Some e, Some f) \<Rightarrow> Some (absdiff a b + absdiff c d + absdiff e f)
                | _ \<Rightarrow> None)
           | _ \<Rightarrow> None)
      | _ \<Rightarrow> None)"

text \<open>\<open>Math.max\<close> of two numbers, \<open>NaN\<close> when either is.\<close>

definition max_nan :: "nat option \<Rightarrow> nat option \<Rightarrow> nat option" where
  "max_nan a b = (case (a, b) of (Some m, Some n) \<Rightarrow> Some (max m n) | _ \<Rightarrow> None)"

text \<open>The body of the edge detection loops at the pixel \<open>(x, y)\<close>; \<open>edgeMap\<close> is a
  \<open>Uint8Array\<close>.\<close>

definition detect_edge :: "byte list \<Rightarrow> nat \<Rightarrow> nat \<Rightarrow> nat \<Rightarrow> byte list \<Rightarrow> byte list" where
  "detect_edge data width y x edgeMap =
     (let idx = (y * width + x) * 4;
          leftIdx = (y * width + (x - 1)) * 4;
          rightIdx = (y * width + (x + 1)) * 4;
          topIdx = ((y - 1) * width + x) * 4;
          bottomIdx = ((y + 1) * width + x) * 4
      in if (case get data (idx + 3) of Some a \<Rightarrow> a < 128 | None \<Rightarrow> False) then edgeMap
         else
           (let maxDiff = max_nan (max_nan (max_nan (neighborDiff data idx leftIdx)
                                                     (neighborDiff data idx rightIdx))
                                            (neighborDiff data idx topIdx))
                                   (neighborDiff data idx bottomIdx)
            in edgeMap[y * width + x :=
                 (if (case maxDiff of Some m \<Rightarrow> m > 100 | None \<Rightarrow> False) then 255 else 0)]))"

definition detect_edges :: "byte list \<Rightarrow> nat \<Rightarrow> nat \<Rightarrow> byte list" where
  "detect_edges data width height =
     fold (\<lambda>y edgeMap. fold (detect_edge data width y) [1..<width - 1] edgeMap)
       [1..<height - 1] (replicate (width * height) 0)"

text \<open>The body of the quantization loops at the pixel \<open>(x, y)\<close>. The stores follow the
  order of the source; a store outside the array changes nothing.\<close>

definition quantize_pixel :: "byte list \<Rightarrow> nat \<Rightarrow> nat \<Rightarrow> nat \<Rightarrow> byte list \<Rightarrow> byte list" where
  "quantize_pixel edgeMap width y x data =
     (let i = (y * width + x) * 4
      in if get data (i + 3) = Some 0 then data
         else
           (let isEdge = unat (edgeMap ! (y * width + x)) > 0;
                quantizationLevel = (if isEdge then 2 else 6);
                d1 = data[i := quantize quantizationLevel (data ! i)];
                d2 = d1[i + 1 := quantize quantizationLevel (d1 ! (i + 1))];
                d3 = d2[i + 2 := quantize quantizationLevel (d2 ! (i + 2))]
            in d3[i + 3 := binarize (d3 ! (i + 3))]))"

definition reduceColorsAdaptive :: "byte list \<Rightarrow> nat \<Rightarrow> nat \<Rightarrow> byte list" where
  "reduceColorsAdaptive data width height =
     (let edgeMap = detect_edges data width height
      in fold (\<lambda>y d. fold (quantize_pixel edgeMap width y) [0..<width] d) [0..<height] data)"

subsection \<open>The edge flag in the words of the specification\<close>

text \<open>The largest, over the four neighbours of the pixel \<open>(x, y)\<close>, of the summed
  differences of the colour channels.\<close>

definition neighbor_delta :: "byte list \<Rightarrow> nat \<Rightarrow> nat \<Rightarrow> nat \<Rightarrow> nat" where
  "neighbor_delta data width x y =
     (let idx = (y * width + x) * 4
      in max (max (max (colorDiff data idx ((y * width + (x - 1)) * 4))
                       (colorDiff data idx ((y * width + (x + 1)) * 4)))
                  (colorDiff data idx (((y - 1) * width + x) * 4)))
             (colorDiff data idx (((y + 1) * width + x) * 4)))"

text \<open>A pixel is an edge when it is not on the border of the image, its alpha is at least
  128, and that delta exceeds 100.\<close>

definition is_edge :: "byte list \<Rightarrow> nat \<Rightarrow> nat \<Rightarrow> nat \<Rightarrow> nat \<Rightarrow> bool" where
  "is_edge data width height x y \<longleftrightarrow>
     1 \<le> x \<and> x + 1 < width \<and> 1 \<le> y \<and> y + 1 < height \<and>
     128 \<le> unat (data ! ((y * width + x) * 4 + 3)) \<and>
     neighbor_delta data width x y > 100"

text \<open>The four array cells of the pixel \<open>(x, y)\<close>, given as the pair \<open>(y, x)\<close> of the loop
  variables.\<close>

definition pixel_cells :: "nat \<Rightarrow> nat \<times> nat \<Rightarrow> nat set" where
  "pixel_cells w = (\<lambda>(y, x). {(y * w + x) * 4, (y * w + x) * 4 + 1, (y * w + x) * 4 + 2,
                             (y * w + x) * 4 + 3})"

subsection \<open>Example images\<close>

text \<open>Three by three opaque black pixels, with one coloured pixel in the centre; and with
  one white pixel in the middle of the top row.\<close>

definition spot :: "byte list" where
  "spot = [0, 0, 0, 255,  0, 0, 0, 255,  0, 0, 0, 255,
           0, 0, 0, 255,  255, 200, 9, 255,  0, 0, 0, 255,
           0, 0, 0, 255,  0, 0, 0, 255,  0, 0, 0, 255]"

definition top_spot :: "byte list" where
  "top_spot = [0, 0, 0, 255,  255, 255, 255, 255,  0, 0, 0, 255,
               0, 0, 0, 255,  0, 0, 0, 255,  0, 0, 0, 255,
               0, 0, 0, 255,  0, 0, 0, 255,  0, 0, 0, 255]"

section \<open>Properties of the JPEG quality searches\<close>

lemma search_post_refl: "search_post enc t s s"
  by (simp add: search_post_def)

lemma search_post_probed:
  assumes "minQuality s < maxQuality s"
    and "enc ((minQuality s + maxQuality s) / 2) = Inr (b, u)"
  shows "search_post enc t s (probed t s b u)"
  using assms by (simp add: search_post_def probed_def field_simps)

lemma search_post_trans:
  assumes a: "search_post enc t s s1" and b: "search_post enc t s1 s2"
  shows "search_post enc t s s2"
proof -
  have i: "iteration s \<le> iteration s1" "iteration s1 \<le> iteration s2"
    using a b by (simp_all add: search_post_def)
  have w1: "maxQuality s1 - minQuality s1 =
       (maxQuality s - minQuality s) / 2 ^ (iteration s1 - iteration s)"
    using a by (simp add: search_post_def)
  have w2: "maxQuality s2 - minQuality s2 =
       (maxQuality s1 - minQuality s1) / 2 ^ (iteration s2 - iteration s1)"
    using b by (simp add: search_post_def)
  have "iteration s2 - iteration s = (iteration s1 - iteration s) + (iteration s2 - iteration s1)"
    using i by simp
  then have w: "maxQuality s2 - minQuality s2 =
       (maxQuality s - minQuality s) / 2 ^ (iteration s2 - iteration s)"
    unfolding w2 w1 by (simp add: power_add)
  have r: "minQuality s \<le> minQuality s2" "maxQuality s2 \<le> maxQuality s"
    using a b by (simp_all add: search_post_def)
  have d: "(best s2 = best s \<and> bestQuality s2 = bestQuality s \<and> minQuality s2 = minQuality s) \<or>
      (\<exists>b u. best s2 = Some (b, u) \<and> enc (bestQuality s2) = Inr (b, u) \<and>
         blob_size b \<le> t \<and> bestQuality s2 = minQuality s2)"
    using a b unfolding search_post_def by metis
  show ?thesis unfolding search_post_def using i w r d by simp
qed


subsection \<open>The uncapped loop\<close>

lemma search_loop_exit:
  "\<not> maxQuality s - minQuality s > eps \<Longrightarrow> search_loop enc t eps s = Some (Inr s)"
  by (subst search_loop.simps) simp

lemma search_loop_fail:
  "maxQuality s - minQuality s > eps \<Longrightarrow> enc ((minQuality s + maxQuality s) / 2) = Inl e \<Longrightarrow>
     search_loop enc t eps s = Some (Inl e)"
  by (subst search_loop.simps) simp

lemma search_loop_step:
  "maxQuality s - minQuality s > eps \<Longrightarrow> enc ((minQuality s + maxQuality s) / 2) = Inr (b, u) \<Longrightarrow>
     search_loop enc t eps s = search_loop enc t eps (probed t s b u)"
  by (subst search_loop.simps) (simp add: probed_def)

lemma probed_width:
  "maxQuality (probed t s b u) - minQuality (probed t s b u) = (maxQuality s - minQuality s) / 2"
  by (simp add: probed_def field_simps)

lemma probed_iteration: "iteration (probed t s b u) = iteration s + 1"
  by (simp add: probed_def)

lemma search_loop_run:
  assumes eps: "0 < eps"
  shows "maxQuality s - minQuality s \<le> eps * 2 ^ k \<Longrightarrow>
    \<exists>out. search_loop enc t eps s = Some out \<and>
      (\<forall>s'. out = Inr s' \<longrightarrow>
         search_post enc t s s' \<and> iteration s' \<le> iteration s + k \<and>
         \<not> maxQuality s' - minQuality s' > eps) \<and>
      (\<forall>e. out = Inl e \<longrightarrow>
         (\<exists>q. minQuality s \<le> q \<and> q \<le> maxQuality s \<and> enc q = Inl e))"
proof (induction k arbitrary: s)
  case 0
  then have "\<not> maxQuality s - minQuality s > eps" by simp
  then show ?case by (simp add: search_loop_exit search_post_refl)
next
  case (Suc k)
  show ?case
  proof (cases "maxQuality s - minQuality s > eps")
    case False
    then show ?thesis by (simp add: search_loop_exit search_post_refl)
  next
    case True
    let ?mid = "(minQuality s + maxQuality s) / 2"
    from True eps have lt: "minQuality s < maxQuality s" by simp
    then have mid: "minQuality s \<le> ?mid" "?mid \<le> maxQuality s" by simp_all
    show ?thesis
    proof (cases "enc ?mid")
      case (Inl e)
      have "search_loop enc t eps s = Some (Inl e)"
        using True Inl by (rule search_loop_fail)
      moreover have "\<exists>q. minQuality s \<le> q \<and> q \<le> maxQuality s \<and> enc q = Inl e"
        using mid Inl by blast
      ultimately show ?thesis by simp
    next
      case (Inr bu)
      obtain b u where bu: "bu = (b, u)" by (cases bu)
      let ?s1 = "probed t s b u"
      have enc: "enc ?mid = Inr (b, u)" using Inr bu by simp
      have step: "search_loop enc t eps s = search_loop enc t eps ?s1"
        using True enc by (rule search_loop_step)
      have p1: "search_post enc t s ?s1"
        using lt enc by (rule search_post_probed)
      have "maxQuality ?s1 - minQuality ?s1 \<le> eps * 2 ^ k"
        using Suc.prems by (simp add: probed_width)
      from Suc.IH[OF this] obtain out where out: "search_loop enc t eps ?s1 = Some out"
        and ok: "\<forall>s'. out = Inr s' \<longrightarrow>
         search_post enc t ?s1 s' \<and> iteration s' \<le> iteration ?s1 + k \<and>
         \<not> maxQuality s' - minQuality s' > eps"
        and bad: "\<forall>e. out = Inl e \<longrightarrow>
         (\<exists>q. minQuality ?s1 \<le> q \<and> q \<le> maxQuality ?s1 \<and> enc q = Inl e)"
        by blast
      have r1: "minQuality s \<le> minQuality ?s1" "maxQuality ?s1 \<le> maxQuality s"
        using p1 by (simp_all add: search_post_def)
      have ok': "\<forall>s'. out = Inr s' \<longrightarrow>
         search_post enc t s s' \<and> iteration s' \<le> iteration s + Suc k \<and>
         \<not> maxQuality s' - minQuality s' > eps"
        using ok search_post_trans[OF p1] by (simp add: probed_iteration)
      have bad': "\<forall>e. out = Inl e \<longrightarrow>
         (\<exists>q. minQuality s \<le> q \<and> q \<le> maxQuality s \<and> enc q = Inl e)"
      proof (intro allI impI)
        fix e assume "out = Inl e"
        with bad obtain q where "minQuality ?s1 \<le> q" "q \<le> maxQuality ?s1" "enc q = Inl e"
          by blast
        with r1 show "\<exists>q. minQuality s \<le> q \<and> q \<le> maxQuality s \<and> enc q = Inl e"
          by (intro exI[of _ q]) simp
      qed
      show ?thesis unfolding step using out ok' bad' by blast
    qed
  qed
qed

lemma width_le_pow:
  assumes "0 < (eps::real)"
  shows "w \<le> eps * 2 ^ nat \<lceil>log 2 (w / eps)\<rceil>"
proof -
  have "w / eps \<le> 2 ^ nat \<lceil>log 2 (w / eps)\<rceil>"
    by (rule power_of_nat_log_ge) simp
  then show ?thesis using assms by (simp add: field_simps)
qed

subsection \<open>The capped loop\<close>

lemma maxIterations_value: "maxIterations 0.1 0.95 0.01 = 9"
proof -
  have "\<lceil>log 2 (85::real)\<rceil> = int 6 + 1"
    by (subst ceiling_log_eq_powr_iff) (simp_all add: powr_realpow)
  then show ?thesis by (simp add: maxIterations_def)
qed

lemma maxIterations_value_normal: "maxIterations (1 / 10) (19 / 20) (1 / 100) = 9"
  using maxIterations_value by simp

declare capped_search_loop.simps [simp del]

lemma capped_loop_exit:
  "\<not> (maxQuality s - minQuality s > eps \<and> int (iteration s) < cap) \<Longrightarrow>
     capped_search_loop enc t eps cap s = Inr s"
  by (subst capped_search_loop.simps) (simp only: if_False)

lemma capped_loop_fail:
  "maxQuality s - minQuality s > eps \<and> int (iteration s) < cap \<Longrightarrow>
   enc ((minQuality s + maxQuality s) / 2) = Inl e \<Longrightarrow>
     capped_search_loop enc t eps cap s = Inl e"
  by (subst capped_search_loop.simps) (simp only: simp_thms if_True sum.case)

lemma capped_loop_step:
  "maxQuality s - minQuality s > eps \<and> int (iteration s) < cap \<Longrightarrow>
   enc ((minQuality s + maxQuality s) / 2) = Inr (b, u) \<Longrightarrow>
     capped_search_loop enc t eps cap s =
       (if best (probed t s b u) \<noteq> None \<and>
           (maxQuality (probed t s b u) - minQuality (probed t s b u) < 0.03 \<or>
            int (iteration (probed t s b u)) \<ge> cap - 1)
        then Inr (probed t s b u) else capped_search_loop enc t eps cap (probed t s b u))"
  unfolding probed_def
  by (subst capped_search_loop.simps) (simp only: simp_thms Let_def if_True sum.case prod.case)

lemma capped_loop_run:
  assumes eps: "0 < eps"
  shows "(\<forall>s'. capped_search_loop enc t eps cap s = Inr s' \<longrightarrow>
            search_post enc t s s' \<and> int (iteration s') \<le> max (int (iteration s)) cap) \<and>
         (\<forall>e. capped_search_loop enc t eps cap s = Inl e \<longrightarrow>
            (\<exists>q. minQuality s \<le> q \<and> q \<le> maxQuality s \<and> enc q = Inl e))"
  using eps
proof (induction enc t eps cap s rule: capped_search_loop.induct)
  case (1 enc target precision cap s)
  let ?mid = "(minQuality s + maxQuality s) / 2"
  show ?case
  proof (cases "maxQuality s - minQuality s > precision \<and> int (iteration s) < cap")
    case False
    then have "capped_search_loop enc target precision cap s = Inr s"
      by (rule capped_loop_exit)
    then show ?thesis by (simp add: search_post_refl)
  next
    case True
    with "1.prems" have lt: "minQuality s < maxQuality s" by simp
    then have mid: "minQuality s \<le> ?mid" "?mid \<le> maxQuality s" by simp_all
    show ?thesis
    proof (cases "enc ?mid")
      case (Inl e)
      have "capped_search_loop enc target precision cap s = Inl e"
        using True Inl by (rule capped_loop_fail)
      moreover have "\<exists>q. minQuality s \<le> q \<and> q \<le> maxQuality s \<and> enc q = Inl e"
        using mid Inl by blast
      ultimately show ?thesis by simp
    next
      case (Inr bu)
      obtain b u where bu: "bu = (b, u)" by (cases bu)
      define s1 where "s1 = probed target s b u"
      have enc: "enc ?mid = Inr (b, u)" using Inr bu by simp
      have p1: "search_post enc target s s1"
        unfolding s1_def using lt enc by (rule search_post_probed)
      have i1: "iteration s1 = iteration s + 1" by (simp add: s1_def probed_iteration)
      have r1: "minQuality s \<le> minQuality s1" "maxQuality s1 \<le> maxQuality s"
        using p1 by (simp_all add: search_post_def)
      define c where "c \<longleftrightarrow> best s1 \<noteq> None \<and>
                    (maxQuality s1 - minQuality s1 < 0.03 \<or> int (iteration s1) \<ge> cap - 1)"
      have st: "capped_search_loop enc target precision cap s =
                 (if c then Inr s1 else capped_search_loop enc target precision cap s1)"
        unfolding c_def s1_def using True enc by (rule capped_loop_step)
      show ?thesis
      proof (cases c)
        case brk: True
        with st have "capped_search_loop enc target precision cap s = Inr s1" by simp
        then show ?thesis using p1 i1 True by simp
      next
        case nobrk: False
        with st have eq: "capped_search_loop enc target precision cap s =
            capped_search_loop enc target precision cap s1" by simp
        have s1': "s1 = (if blob_size b \<le> target
                        then s\<lparr>bestQuality := (minQuality s + maxQuality s) / 2,
                               best := Some (b, u),
                               minQuality := (minQuality s + maxQuality s) / 2,
                               iteration := iteration s + 1\<rparr>
                        else s\<lparr>maxQuality := (minQuality s + maxQuality s) / 2,
                               iteration := iteration s + 1\<rparr>)"
          by (simp add: s1_def probed_def)
        from "1.IH"[OF True Inr bu[symmetric] s1' nobrk[unfolded c_def] "1.prems"]
        have ih1: "\<forall>s'. capped_search_loop enc target precision cap s1 = Inr s' \<longrightarrow>
            search_post enc target s1 s' \<and> int (iteration s') \<le> max (int (iteration s1)) cap"
          and ih2: "\<forall>e. capped_search_loop enc target precision cap s1 = Inl e \<longrightarrow>
            (\<exists>q. minQuality s1 \<le> q \<and> q \<le> maxQuality s1 \<and> enc q = Inl e)"
          by blast+
        have a: "\<forall>s'. capped_search_loop enc target precision cap s = Inr s' \<longrightarrow>
            search_post enc target s s' \<and> int (iteration s') \<le> max (int (iteration s)) cap"
          unfolding eq using ih1 search_post_trans[OF p1] i1 True by auto
        have b: "\<forall>e. capped_search_loop enc target precision cap s = Inl e \<longrightarrow>
            (\<exists>q. minQuality s \<le> q \<and> q \<le> maxQuality s \<and> enc q = Inl e)"
          unfolding eq
        proof (intro allI impI)
          fix e assume "capped_search_loop enc target precision cap s1 = Inl e"
          with ih2 obtain q where "minQuality s1 \<le> q" "q \<le> maxQuality s1" "enc q = Inl e"
            by blast
          with r1 show "\<exists>q. minQuality s \<le> q \<and> q \<le> maxQuality s \<and> enc q = Inl e"
            by (intro exI[of _ q]) simp
        qed
        show ?thesis using a b by blast
      qed
    qed
  qed
qed

lemma blob_size_blob_of_size [simp]: "blob_size (blob_of_size n) = n"
  by (simp add: blob_size_def blob_of_size_def)


subsection \<open>Which result the searches return\<close>

lemma search_post_best:
  assumes "search_post enc t s0 s" and "best s0 = None" and "best s = Some (b, u)"
  shows "enc (bestQuality s) = Inr (b, u)" and "blob_size b \<le> t"
    and "bestQuality s = minQuality s"
  using assms unfolding search_post_def by auto

lemma search_post_range:
  assumes "search_post enc t s0 s" and "minQuality s0 \<le> maxQuality s0"
  shows "minQuality s0 \<le> minQuality s" and "minQuality s \<le> maxQuality s"
    and "maxQuality s \<le> maxQuality s0"
proof -
  have w: "maxQuality s - minQuality s =
       (maxQuality s0 - minQuality s0) / 2 ^ (iteration s - iteration s0)"
    using assms(1) by (simp add: search_post_def)
  have "0 \<le> (maxQuality s0 - minQuality s0) / 2 ^ (iteration s - iteration s0)"
    using assms(2) by simp
  with w show "minQuality s \<le> maxQuality s" by simp
  show "minQuality s0 \<le> minQuality s" "maxQuality s \<le> maxQuality s0"
    using assms(1) by (simp_all add: search_post_def)
qed

lemma search_loop_returns:
  assumes eps: "0 < eps"
    and succ: "\<forall>q. minQuality s0 \<le> q \<and> q \<le> maxQuality s0 \<longrightarrow> (\<exists>b u. enc q = Inr (b, u))"
  shows "\<exists>s. search_loop enc t eps s0 = Some (Inr s) \<and> search_post enc t s0 s"
proof -
  have "maxQuality s0 - minQuality s0
          \<le> eps * 2 ^ nat \<lceil>log 2 ((maxQuality s0 - minQuality s0) / eps)\<rceil>"
    using eps by (rule width_le_pow)
  from search_loop_run[OF eps this, of enc t]
  obtain out where out: "search_loop enc t eps s0 = Some out"
    and ok: "\<forall>s'. out = Inr s' \<longrightarrow> search_post enc t s0 s'"
    and bad: "\<forall>e. out = Inl e \<longrightarrow>
         (\<exists>q. minQuality s0 \<le> q \<and> q \<le> maxQuality s0 \<and> enc q = Inl e)"
    by blast
  show ?thesis
  proof (cases out)
    case (Inl e)
    with bad obtain q where "minQuality s0 \<le> q" "q \<le> maxQuality s0" "enc q = Inl e" by blast
    with succ show ?thesis by (metis sum.distinct(1))
  next
    case (Inr s)
    with out ok show ?thesis by blast
  qed
qed

lemma capped_loop_returns:
  assumes eps: "0 < eps"
    and succ: "\<forall>q. minQuality s0 \<le> q \<and> q \<le> maxQuality s0 \<longrightarrow> (\<exists>b u. enc q = Inr (b, u))"
  shows "\<exists>s. capped_search_loop enc t eps cap s0 = Inr s \<and> search_post enc t s0 s"
proof (cases "capped_search_loop enc t eps cap s0")
  case (Inl e)
  with capped_loop_run[OF eps, of enc t cap s0]
  obtain q where "minQuality s0 \<le> q" "q \<le> maxQuality s0" "enc q = Inl e" by blast
  with succ show ?thesis by (metis sum.distinct(1))
next
  case (Inr s)
  with capped_loop_run[OF eps, of enc t cap s0] show ?thesis by blast
qed

subsection \<open>Termination and number of passes\<close>

text \<open>
  C4. For every encoder, target and precision \<open>\<epsilon> > 0\<close>, the loop of
  \<open>JPEGCompressor.compress\<close> over \<open>[lo, hi]\<close> terminates (its value is not \<open>None\<close>), having
  made at most \<open>\<lceil>log\<^sub>2 ((hi - lo) / \<epsilon>)\<rceil>\<close> passes (none when that number is negative), and the
  search around it settles. The loop of \<open>JPEGCompressorAdvanced.findOptimalQuality\<close>, which
  terminates by its iteration cap, makes at most \<open>\<lceil>log\<^sub>2 ((hi - lo) / \<epsilon>)\<rceil> + 2\<close> passes, which
  is 9 for the constants 0.1, 0.95 and 0.01 of the source. In both loops the width of the
  interval after \<open>n\<close> passes is \<open>(hi - lo) / 2\<^sup>n\<close>: it halves on every pass.
\<close>

theorem quality_search_iterations:
  assumes "0 < precision"
  shows "(\<exists>out. search_loop enc target precision
                  \<lparr>minQuality = lo, maxQuality = hi, bestQuality = hi, best = None,
                   iteration = 0\<rparr> = Some out \<and>
            (\<forall>s. out = Inr s \<longrightarrow>
               iteration s \<le> nat \<lceil>log 2 ((hi - lo) / precision)\<rceil> \<and>
               maxQuality s - minQuality s = (hi - lo) / 2 ^ iteration s \<and>
               maxQuality s - minQuality s \<le> precision)) \<and>
         (\<exists>out. binary_search enc target lo hi precision = Some out) \<and>
         (\<forall>s. capped_search_loop enc target precision (maxIterations lo hi precision)
                  \<lparr>minQuality = lo, maxQuality = hi, bestQuality = lo, best = None,
                   iteration = 0\<rparr> = Inr s \<longrightarrow>
               int (iteration s) \<le> max 0 (\<lceil>log 2 ((hi - lo) / precision)\<rceil> + 2) \<and>
               maxQuality s - minQuality s = (hi - lo) / 2 ^ iteration s) \<and>
         maxIterations 0.1 0.95 0.01 = \<lceil>log 2 ((0.95 - 0.1) / 0.01 :: real)\<rceil> + 2 \<and>
         maxIterations 0.1 0.95 0.01 = 9"
proof -
  let ?s0 = "\<lparr>minQuality = lo, maxQuality = hi, bestQuality = hi, best = None, iteration = 0\<rparr>"
  let ?c0 = "\<lparr>minQuality = lo, maxQuality = hi, bestQuality = lo, best = None, iteration = 0\<rparr>"
  let ?k = "nat \<lceil>log 2 ((hi - lo) / precision)\<rceil>"
  have "maxQuality ?s0 - minQuality ?s0 \<le> precision * 2 ^ ?k"
    using width_le_pow[OF assms, of "hi - lo"] by simp
  from search_loop_run[OF assms this, of enc target]
  obtain out where out: "search_loop enc target precision ?s0 = Some out"
    and ok: "\<forall>s'. out = Inr s' \<longrightarrow>
         search_post enc target ?s0 s' \<and> iteration s' \<le> iteration ?s0 + ?k \<and>
         \<not> maxQuality s' - minQuality s' > precision"
    by blast
  have A: "\<forall>s. out = Inr s \<longrightarrow>
               iteration s \<le> ?k \<and>
               maxQuality s - minQuality s = (hi - lo) / 2 ^ iteration s \<and>
               maxQuality s - minQuality s \<le> precision"
    using ok by (auto simp: search_post_def)
  have B: "\<exists>out. binary_search enc target lo hi precision = Some out"
    unfolding binary_search_def out
    by (simp split: sum.split option.split prod.split)
  have C: "\<forall>s. capped_search_loop enc target precision (maxIterations lo hi precision) ?c0 = Inr s \<longrightarrow>
               int (iteration s) \<le> max 0 (\<lceil>log 2 ((hi - lo) / precision)\<rceil> + 2) \<and>
               maxQuality s - minQuality s = (hi - lo) / 2 ^ iteration s"
    using capped_loop_run[OF assms, of enc target "maxIterations lo hi precision" ?c0]
    by (auto simp: search_post_def maxIterations_def)
  have D: "maxIterations 0.1 0.95 0.01 = \<lceil>log 2 ((0.95 - 0.1) / 0.01 :: real)\<rceil> + 2"
    by (simp add: maxIterations_def)
  show ?thesis using out A B C D maxIterations_value by blast
qed

theorem quality_search_iterations_witness:
  "(0::real) < 0.01 \<and>
   search_loop (encoder_of_sizes (\<lambda>q. 200000)) 102400 0.01
     \<lparr>minQuality = 0.1, maxQuality = 0.95, bestQuality = 0.95, best = None, iteration = 0\<rparr>
   = Some (Inr \<lparr>minQuality = 0.1, maxQuality = 0.106640625, bestQuality = 0.95, best = None,
               iteration = 7\<rparr>) \<and>
   (7::nat) \<le> nat \<lceil>log 2 ((0.95 - 0.1) / 0.01 :: real)\<rceil>"
proof -
  have h: "(0::real) < 0.01" by simp
  have e: "search_loop (encoder_of_sizes (\<lambda>q. 200000)) 102400 0.01
     \<lparr>minQuality = 0.1, maxQuality = 0.95, bestQuality = 0.95, best = None, iteration = 0\<rparr>
   = Some (Inr \<lparr>minQuality = 0.1, maxQuality = 0.106640625, bestQuality = 0.95, best = None,
               iteration = 7\<rparr>)"
    by (simp add: search_loop.simps encoder_of_sizes_def)
  from quality_search_iterations[OF h, of "encoder_of_sizes (\<lambda>q. 200000)" 102400 "0.1" "0.95"]
  have "\<exists>out. search_loop (encoder_of_sizes (\<lambda>q. 200000)) 102400 0.01
                  \<lparr>minQuality = 0.1, maxQuality = 0.95, bestQuality = 0.95, best = None,
                   iteration = 0\<rparr> = Some out \<and>
            (\<forall>s. out = Inr s \<longrightarrow>
               iteration s \<le> nat \<lceil>log 2 ((0.95 - 0.1) / 0.01 :: real)\<rceil> \<and>
               maxQuality s - minQuality s = (0.95 - 0.1) / 2 ^ iteration s \<and>
               maxQuality s - minQuality s \<le> 0.01)"
    by (rule conjunct1)
  then have "(7::nat) \<le> nat \<lceil>log 2 ((0.95 - 0.1) / 0.01 :: real)\<rceil>"
    unfolding e by simp
  with h e show ?thesis by blast
qed

subsection \<open>The returned quality meets the target\<close>

text \<open>
  C1, as the code has it. For every encoder, target and precision \<open>\<epsilon> > 0\<close>, whenever the loop
  of either search ends with a recorded probe, the search returns that probe, it is the
  encoding at the returned quality, and its size is at most the target. For every encoder
  that succeeds on \<open>[lo, hi]\<close> and whose encoded size is weakly monotonic in the quality
  there, whenever some quality in \<open>[lo, hi]\<close> yields an encoding of at most the target, both
  searches return a result whose quality lies in \<open>[lo, hi]\<close> and whose blob is the encoding
  at that quality, of size at most the target.
\<close>

theorem quality_search_meets_target:
  assumes eps: "0 < precision" and range: "lo \<le> hi"
  shows
   "(\<forall>s b u.
       search_loop enc target precision
         \<lparr>minQuality = lo, maxQuality = hi, bestQuality = hi, best = None, iteration = 0\<rparr>
         = Some (Inr s) \<and> best s = Some (b, u) \<longrightarrow>
       binary_search enc target lo hi precision =
         Some (Inr \<lparr>blob = b, dataUrl = u, quality = bestQuality s\<rparr>) \<and>
       enc (bestQuality s) = Inr (b, u) \<and> blob_size b \<le> target) \<and>
    (\<forall>mb mu s b u.
       enc hi = Inr (mb, mu) \<and> target < blob_size mb \<and>
       capped_search_loop enc target precision (maxIterations lo hi precision)
         \<lparr>minQuality = lo, maxQuality = hi, bestQuality = lo, best = None, iteration = 0\<rparr>
         = Inr s \<and> best s = Some (b, u) \<longrightarrow>
       capped_binary_search enc progressive target lo hi precision =
         Some (Inr \<lparr>blob = b, dataUrl = u, quality = bestQuality s\<rparr>) \<and>
       enc (bestQuality s) = Inr (b, u) \<and> blob_size b \<le> target) \<and>
    ((\<forall>q. lo \<le> q \<and> q \<le> hi \<longrightarrow> (\<exists>b u. enc q = Inr (b, u))) \<and>
     (\<forall>q q' b u b' u'. lo \<le> q \<and> q \<le> q' \<and> q' \<le> hi \<and>
          enc q = Inr (b, u) \<and> enc q' = Inr (b', u') \<longrightarrow> blob_size b \<le> blob_size b') \<and>
     (\<exists>q b u. lo \<le> q \<and> q \<le> hi \<and> enc q = Inr (b, u) \<and> blob_size b \<le> target) \<longrightarrow>
     (\<exists>r. binary_search enc target lo hi precision = Some (Inr r) \<and>
          lo \<le> quality r \<and> quality r \<le> hi \<and>
          enc (quality r) = Inr (blob r, dataUrl r) \<and> blob_size (blob r) \<le> target) \<and>
     (\<exists>r. capped_binary_search enc progressive target lo hi precision = Some (Inr r) \<and>
          lo \<le> quality r \<and> quality r \<le> hi \<and>
          enc (quality r) = Inr (blob r, dataUrl r) \<and> blob_size (blob r) \<le> target))"
proof (intro conjI allI impI)
  let ?s0 = "\<lparr>minQuality = lo, maxQuality = hi, bestQuality = hi, best = None, iteration = 0\<rparr>"
  let ?c0 = "\<lparr>minQuality = lo, maxQuality = hi, bestQuality = lo, best = None, iteration = 0\<rparr>"
  let ?cap = "maxIterations lo hi precision"
  have w0: "maxQuality ?s0 - minQuality ?s0
          \<le> precision * 2 ^ nat \<lceil>log 2 ((maxQuality ?s0 - minQuality ?s0) / precision)\<rceil>"
    using eps by (rule width_le_pow)
  {
    fix s b u
    assume a: "search_loop enc target precision ?s0 = Some (Inr s) \<and> best s = Some (b, u)"
    from search_loop_run[OF eps w0, of enc target] a
    have post: "search_post enc target ?s0 s" by simp
    from search_post_best[OF post _ conjunct2[OF a]]
    have f: "enc (bestQuality s) = Inr (b, u)" "blob_size b \<le> target" by simp_all
    have "binary_search enc target lo hi precision =
         Some (Inr \<lparr>blob = b, dataUrl = u, quality = bestQuality s\<rparr>)"
      using a by (simp add: binary_search_def)
    with f show "binary_search enc target lo hi precision =
         Some (Inr \<lparr>blob = b, dataUrl = u, quality = bestQuality s\<rparr>)"
      "enc (bestQuality s) = Inr (b, u)" "blob_size b \<le> target" by simp_all
  }
  {
    fix mb mu s b u
    assume a: "enc hi = Inr (mb, mu) \<and> target < blob_size mb \<and>
       capped_search_loop enc target precision ?cap ?c0 = Inr s \<and> best s = Some (b, u)"
    from capped_loop_run[OF eps, of enc target ?cap ?c0] a
    have post: "search_post enc target ?c0 s" by simp
    have bs: "best s = Some (b, u)" using a by simp
    from search_post_best[OF post _ bs]
    have f: "enc (bestQuality s) = Inr (b, u)" "blob_size b \<le> target" by simp_all
    have "capped_binary_search enc progressive target lo hi precision =
         Some (Inr \<lparr>blob = b, dataUrl = u, quality = bestQuality s\<rparr>)"
      using a by (simp add: capped_binary_search_def)
    with f show "capped_binary_search enc progressive target lo hi precision =
         Some (Inr \<lparr>blob = b, dataUrl = u, quality = bestQuality s\<rparr>)"
      "enc (bestQuality s) = Inr (b, u)" "blob_size b \<le> target" by simp_all
  }
  assume hyp: "(\<forall>q. lo \<le> q \<and> q \<le> hi \<longrightarrow> (\<exists>b u. enc q = Inr (b, u))) \<and>
     (\<forall>q q' b u b' u'. lo \<le> q \<and> q \<le> q' \<and> q' \<le> hi \<and>
          enc q = Inr (b, u) \<and> enc q' = Inr (b', u') \<longrightarrow> blob_size b \<le> blob_size b') \<and>
     (\<exists>q b u. lo \<le> q \<and> q \<le> hi \<and> enc q = Inr (b, u) \<and> blob_size b \<le> target)"
  then have succ: "\<forall>q. lo \<le> q \<and> q \<le> hi \<longrightarrow> (\<exists>b u. enc q = Inr (b, u))"
    and mono: "\<forall>q q' b u b' u'. lo \<le> q \<and> q \<le> q' \<and> q' \<le> hi \<and>
          enc q = Inr (b, u) \<and> enc q' = Inr (b', u') \<longrightarrow> blob_size b \<le> blob_size b'"
    and some: "\<exists>q b u. lo \<le> q \<and> q \<le> hi \<and> enc q = Inr (b, u) \<and> blob_size b \<le> target"
    by blast+
  from succ range obtain lb lu where lo_enc: "enc lo = Inr (lb, lu)" by force
  from some obtain q0 b0 u0 where q0: "lo \<le> q0" "q0 \<le> hi" "enc q0 = Inr (b0, u0)"
    "blob_size b0 \<le> target" by blast
  have "blob_size lb \<le> blob_size b0"
    using mono q0 lo_enc by blast
  with q0(4) have lo_fits: "blob_size lb \<le> target" by simp
  have found: "\<exists>r. res = Some (Inr r) \<and>
          lo \<le> quality r \<and> quality r \<le> hi \<and>
          enc (quality r) = Inr (blob r, dataUrl r) \<and> blob_size (blob r) \<le> target"
    if post: "search_post enc target s0 s" and s0: "minQuality s0 = lo" "maxQuality s0 = hi"
       "best s0 = None"
      and res: "res = (case best s of
             Some (b, u) \<Rightarrow> Some (Inr \<lparr>blob = b, dataUrl = u, quality = bestQuality s\<rparr>)
           | None \<Rightarrow> Some (Inr \<lparr>blob = lb, dataUrl = lu, quality = lo\<rparr>))"
    for s0 s res
  proof (cases "best s")
    case None
    then show ?thesis using res lo_enc lo_fits range by simp
  next
    case (Some bu)
    obtain b u where bu: "bu = (b, u)" by (cases bu)
    from search_post_best[OF post s0(3) Some[unfolded bu]]
    have f: "enc (bestQuality s) = Inr (b, u)" "blob_size b \<le> target"
      "bestQuality s = minQuality s" by simp_all
    from search_post_range[OF post] s0 range
    have "lo \<le> minQuality s" "minQuality s \<le> maxQuality s" "maxQuality s \<le> hi" by simp_all
    then show ?thesis using res Some bu f by simp
  qed
  from search_loop_returns[OF eps, of ?s0 enc target] succ
  obtain s where s: "search_loop enc target precision ?s0 = Some (Inr s)"
    "search_post enc target ?s0 s" by auto
  have "binary_search enc target lo hi precision = (case best s of
             Some (b, u) \<Rightarrow> Some (Inr \<lparr>blob = b, dataUrl = u, quality = bestQuality s\<rparr>)
           | None \<Rightarrow> Some (Inr \<lparr>blob = lb, dataUrl = lu, quality = lo\<rparr>))"
    using s(1) lo_enc lo_fits by (simp add: binary_search_def split: option.split)
  from found[OF s(2) _ _ _ this]
  show "\<exists>r. binary_search enc target lo hi precision = Some (Inr r) \<and>
          lo \<le> quality r \<and> quality r \<le> hi \<and>
          enc (quality r) = Inr (blob r, dataUrl r) \<and> blob_size (blob r) \<le> target"
    by simp
  from succ range obtain mb mu where hi_enc: "enc hi = Inr (mb, mu)" by force
  show "\<exists>r. capped_binary_search enc progressive target lo hi precision = Some (Inr r) \<and>
          lo \<le> quality r \<and> quality r \<le> hi \<and>
          enc (quality r) = Inr (blob r, dataUrl r) \<and> blob_size (blob r) \<le> target"
  proof (cases "blob_size mb \<le> target")
    case True
    then have "capped_binary_search enc progressive target lo hi precision =
        Some (Inr \<lparr>blob = mb, dataUrl = mu, quality = hi\<rparr>)"
      using hi_enc by (simp add: capped_binary_search_def)
    then show ?thesis using True hi_enc range by simp
  next
    case False
    from capped_loop_returns[OF eps, of ?c0 enc target ?cap] succ
    obtain c where c: "capped_search_loop enc target precision ?cap ?c0 = Inr c"
      "search_post enc target ?c0 c" by auto
    have "capped_binary_search enc progressive target lo hi precision = (case best c of
             Some (b, u) \<Rightarrow> Some (Inr \<lparr>blob = b, dataUrl = u, quality = bestQuality c\<rparr>)
           | None \<Rightarrow> Some (Inr \<lparr>blob = lb, dataUrl = lu, quality = lo\<rparr>))"
      using False hi_enc c(1) lo_enc lo_fits
      by (simp add: capped_binary_search_def split: option.split)
    from found[OF c(2) _ _ _ this] show ?thesis by simp
  qed
qed


theorem quality_search_meets_target_witness:
  "(0::real) < 0.01 \<and> (0.1::real) \<le> 0.95 \<and>
   encoder_of_sizes (\<lambda>q. if q \<le> 0.5 then 1000 else 200000) 0.1 =
     Inr (blob_of_size 1000, ''data:image/jpeg;base64,'') \<and>
   (\<exists>r. binary_search (encoder_of_sizes (\<lambda>q. if q \<le> 0.5 then 1000 else 200000))
           102400 0.1 0.95 0.01 = Some (Inr r) \<and>
        quality r = 0.4984375 \<and> blob_size (blob r) \<le> 102400) \<and>
   (\<exists>r. capped_binary_search (encoder_of_sizes (\<lambda>q. if q \<le> 0.5 then 1000 else 200000))
           None 102400 0.1 0.95 0.01 = Some (Inr r) \<and>
        quality r = 0.4984375 \<and> blob_size (blob r) \<le> 102400)"
proof -
  let ?enc = "encoder_of_sizes (\<lambda>q. if q \<le> 0.5 then 1000 else 200000)"
  have h1: "(0::real) < 0.01" and h2: "(0.1::real) \<le> 0.95" by simp_all
  have succ: "\<forall>q. 0.1 \<le> q \<and> q \<le> 0.95 \<longrightarrow> (\<exists>b u. ?enc q = Inr (b, u))"
    by (simp add: encoder_of_sizes_def)
  have mono: "\<forall>q q' b u b' u'. 0.1 \<le> q \<and> q \<le> q' \<and> q' \<le> 0.95 \<and>
          ?enc q = Inr (b, u) \<and> ?enc q' = Inr (b', u') \<longrightarrow> blob_size b \<le> blob_size b'"
    by (auto simp: encoder_of_sizes_def)
  have e0: "?enc 0.1 = Inr (blob_of_size 1000, ''data:image/jpeg;base64,'')"
    by (simp add: encoder_of_sizes_def)
  then have some: "\<exists>q b u. 0.1 \<le> q \<and> q \<le> 0.95 \<and> ?enc q = Inr (b, u) \<and> blob_size b \<le> 102400"
    by (intro exI[of _ "0.1"] exI[of _ "blob_of_size 1000"] exI[of _ "''data:image/jpeg;base64,''"])
       simp
  have e1: "binary_search ?enc 102400 0.1 0.95 0.01 =
      Some (Inr \<lparr>blob = blob_of_size 1000, dataUrl = ''data:image/jpeg;base64,'',
                 quality = 0.4984375\<rparr>)"
    by (simp add: binary_search_def search_loop.simps encoder_of_sizes_def)
  have e2: "capped_binary_search ?enc None 102400 0.1 0.95 0.01 =
      Some (Inr \<lparr>blob = blob_of_size 1000, dataUrl = ''data:image/jpeg;base64,'',
                 quality = 0.4984375\<rparr>)"
    by (simp add: capped_binary_search_def capped_search_loop.simps maxIterations_value
          maxIterations_value_normal encoder_of_sizes_def Let_def)
  from quality_search_meets_target[OF h1 h2, of ?enc 102400 None] succ mono some
  have "(\<exists>r. binary_search ?enc 102400 0.1 0.95 0.01 = Some (Inr r) \<and>
          0.1 \<le> quality r \<and> quality r \<le> 0.95 \<and>
          ?enc (quality r) = Inr (blob r, dataUrl r) \<and> blob_size (blob r) \<le> 102400) \<and>
     (\<exists>r. capped_binary_search ?enc None 102400 0.1 0.95 0.01 = Some (Inr r) \<and>
          0.1 \<le> quality r \<and> quality r \<le> 0.95 \<and>
          ?enc (quality r) = Inr (blob r, dataUrl r) \<and> blob_size (blob r) \<le> 102400)"
    by blast
  then have "(\<exists>r. binary_search ?enc 102400 0.1 0.95 0.01 = Some (Inr r) \<and>
               quality r = 0.4984375 \<and> blob_size (blob r) \<le> 102400) \<and>
     (\<exists>r. capped_binary_search ?enc None 102400 0.1 0.95 0.01 = Some (Inr r) \<and>
               quality r = 0.4984375 \<and> blob_size (blob r) \<le> 102400)"
    unfolding e1 e2 by simp
  with h1 h2 e0 show ?thesis by blast
qed

text \<open>
  Without monotonicity the claim fails: an encoder that meets the target exactly on the
  qualities from 0.6 to 0.9 is never probed there. The simple compressor throws, and the
  advanced search, its progressive attempt failing, returns the encoding at quality 0.1,
  which is larger than the target.
\<close>

theorem quality_search_counterexample:
  "MIN_QUALITY \<le> 0.7 \<and> 0.7 \<le> MAX_QUALITY \<and>
   encoder_of_sizes (\<lambda>q. if 0.6 \<le> q \<and> q \<le> 0.9 then 1000 else 200000) 0.7 =
     Inr (blob_of_size 1000, ''data:image/jpeg;base64,'') \<and>
   blob_size (blob_of_size 1000) \<le> TARGET_SIZE \<and>
   JPEGCompressor_compress
     (browser_with (encoder_of_sizes (\<lambda>q. if 0.6 \<le> q \<and> q \<le> 0.9 then 1000 else 200000)))
     (blob_of_size 150000) =
     Some (Inl (Error ''Could not compress image to target size'')) \<and>
   findOptimalQuality (encoder_of_sizes (\<lambda>q. if 0.6 \<le> q \<and> q \<le> 0.9 then 1000 else 200000))
     (Some (Inl (Error ''Unknown error during progressive compression''))) TARGET_SIZE =
     Some (Inr \<lparr>blob = blob_of_size 200000, dataUrl = ''data:image/jpeg;base64,'',
                quality = 0.1\<rparr>) \<and>
   TARGET_SIZE < blob_size (blob_of_size 200000)"
  by (simp add: JPEGCompressor_compress_def browser_with_def canvas_size_def supportedTypes_def
        binary_search_def search_loop.simps findOptimalQuality_def capped_binary_search_def
        capped_search_loop.simps maxIterations_value maxIterations_value_normal
        encoder_of_sizes_def Let_def
        TARGET_SIZE_def MIN_QUALITY_def MAX_QUALITY_def QUALITY_PRECISION_def blob_of_size_def
        blob_size_def)

subsection \<open>When no quality meets the target\<close>

lemma binary_search_unreachable:
  assumes eps: "0 < precision" and range: "lo \<le> hi"
    and never: "\<forall>q. lo \<le> q \<and> q \<le> hi \<longrightarrow> (\<exists>b u. enc q = Inr (b, u) \<and> target < blob_size b)"
  shows "binary_search enc target lo hi precision =
           Some (Inl (Error ''Could not compress image to target size''))"
proof -
  let ?s0 = "\<lparr>minQuality = lo, maxQuality = hi, bestQuality = hi, best = None, iteration = 0\<rparr>"
  from never have succ: "\<forall>q. minQuality ?s0 \<le> q \<and> q \<le> maxQuality ?s0 \<longrightarrow> (\<exists>b u. enc q = Inr (b, u))"
    by auto
  from search_loop_returns[OF eps succ, of target]
  obtain s where s: "search_loop enc target precision ?s0 = Some (Inr s)"
    "search_post enc target ?s0 s" by blast
  have none: "best s = None"
  proof (rule ccontr)
    assume "best s \<noteq> None"
    then obtain b u where bu: "best s = Some (b, u)" by auto
    from search_post_best[OF s(2) _ bu]
    have f: "enc (bestQuality s) = Inr (b, u)" "blob_size b \<le> target"
      "bestQuality s = minQuality s" by simp_all
    from search_post_range[OF s(2)] range
    have "lo \<le> minQuality s" "minQuality s \<le> maxQuality s" "maxQuality s \<le> hi" by simp_all
    with f(3) have "lo \<le> bestQuality s \<and> bestQuality s \<le> hi" by simp
    with never obtain b' u' where "enc (bestQuality s) = Inr (b', u')" "target < blob_size b'"
      by blast
    with f show False by simp
  qed
  have "\<exists>b u. enc lo = Inr (b, u) \<and> target < blob_size b"
    using never[rule_format, of lo] range by simp
  then obtain lb lu where lo_enc: "enc lo = Inr (lb, lu)" "target < blob_size lb"
    by blast
  show ?thesis using s(1) none lo_enc by (simp add: binary_search_def)
qed

lemma capped_binary_search_unreachable:
  assumes eps: "0 < precision" and range: "lo \<le> hi"
    and never: "\<forall>q. lo \<le> q \<and> q \<le> hi \<longrightarrow> (\<exists>b u. enc q = Inr (b, u) \<and> target < blob_size b)"
  shows "\<exists>b u. enc lo = Inr (b, u) \<and> target < blob_size b \<and>
           capped_binary_search enc progressive target lo hi precision =
             (case progressive of
                None \<Rightarrow> None
              | Some (Inr r) \<Rightarrow> Some (Inr r)
              | Some (Inl e) \<Rightarrow> Some (Inr \<lparr>blob = b, dataUrl = u, quality = lo\<rparr>))"
proof -
  let ?c0 = "\<lparr>minQuality = lo, maxQuality = hi, bestQuality = lo, best = None, iteration = 0\<rparr>"
  let ?cap = "maxIterations lo hi precision"
  from never have succ: "\<forall>q. minQuality ?c0 \<le> q \<and> q \<le> maxQuality ?c0 \<longrightarrow> (\<exists>b u. enc q = Inr (b, u))"
    by auto
  from capped_loop_returns[OF eps succ, of target ?cap]
  obtain s where s: "capped_search_loop enc target precision ?cap ?c0 = Inr s"
    "search_post enc target ?c0 s" by blast
  have none: "best s = None"
  proof (rule ccontr)
    assume "best s \<noteq> None"
    then obtain b u where bu: "best s = Some (b, u)" by auto
    from search_post_best[OF s(2) _ bu]
    have f: "enc (bestQuality s) = Inr (b, u)" "blob_size b \<le> target"
      "bestQuality s = minQuality s" by simp_all
    from search_post_range[OF s(2)] range
    have "lo \<le> minQuality s" "minQuality s \<le> maxQuality s" "maxQuality s \<le> hi" by simp_all
    with f(3) have "lo \<le> bestQuality s \<and> bestQuality s \<le> hi" by simp
    with never obtain b' u' where "enc (bestQuality s) = Inr (b', u')" "target < blob_size b'"
      by blast
    with f show False by simp
  qed
  have "\<exists>b u. enc lo = Inr (b, u) \<and> target < blob_size b"
    using never[rule_format, of lo] range by simp
  then obtain lb lu where lo_enc: "enc lo = Inr (lb, lu)" "target < blob_size lb"
    by blast
  have "\<exists>b u. enc hi = Inr (b, u) \<and> target < blob_size b"
    using never[rule_format, of hi] range by simp
  then obtain mb mu where hi_enc: "enc hi = Inr (mb, mu)" "target < blob_size mb"
    by blast
  have "capped_binary_search enc progressive target lo hi precision =
             (case progressive of
                None \<Rightarrow> None
              | Some (Inr r) \<Rightarrow> Some (Inr r)
              | Some (Inl e) \<Rightarrow> Some (Inr \<lparr>blob = lb, dataUrl = lu, quality = lo\<rparr>))"
    using s(1) none lo_enc hi_enc by (simp add: capped_binary_search_def)
  with lo_enc show ?thesis by blast
qed

text \<open>In a file above 5MB an image of 2673 by 3168 pixels is drawn on a canvas of 1687 by
  2000 pixels: the product of 2673 and the double nearest to 2000 / 3168 is a double just
  below 1687.5.\<close>

lemma canvas_size_rounding:
  "canvas_size (blob_of_size 6000000) \<lparr>naturalWidth = 2673, naturalHeight = 3168\<rparr> =
     (1687, 2000)"
proof -
  have "nat (round (js_mul 2673 (js_div 2000 3168))) = 1687"
    "nat (round (js_mul 3168 (js_div 2000 3168))) = 2000"
    by code_simp+
  then show ?thesis by (simp add: canvas_size_def)
qed

text \<open>
  C3, as the code has it. When the encoder succeeds on the search range \<open>[0.1, 0.95]\<close> and
  no quality there yields an encoding of at most the target: the search of the simple JPEG
  compressor throws "Could not compress image to target size", and so does \<open>compress\<close> for
  every file of a supported type that is larger than the target of 100KB, is decoded to an
  image and gets the 2d context of its canvas, the encoder being that of this canvas and
  the target the 100KB; \<open>JPEGCompressorAdvanced.findOptimalQuality\<close> returns what the
  progressive attempt returns when that attempt is fulfilled, returns the encoding at the
  minimum quality 0.1 (larger than the target) when that attempt is rejected, and does not
  settle while that attempt does not.
\<close>

theorem target_unreachable:
  assumes never: "\<forall>q. 0.1 \<le> q \<and> q \<le> 0.95 \<longrightarrow> (\<exists>b u. enc q = Inr (b, u) \<and> target < blob_size b)"
  shows
   "binary_search enc target MIN_QUALITY MAX_QUALITY QUALITY_PRECISION =
      Some (Inl (Error ''Could not compress image to target size'')) \<and>
    (mime file \<in> set supportedTypes \<and> TARGET_SIZE < blob_size file \<and>
     createImageFromFile env file = Inr img \<and> canvas_size file img = (w, h) \<and>
     getContext env w h \<and> canvasToBlob env img w h = enc \<and> target = TARGET_SIZE \<longrightarrow>
       JPEGCompressor_compress env file =
         Some (Inl (Error ''Could not compress image to target size''))) \<and>
    (\<exists>b u. enc 0.1 = Inr (b, u) \<and> target < blob_size b \<and>
       findOptimalQuality enc None target = None \<and>
       (\<forall>r. findOptimalQuality enc (Some (Inr r)) target = Some (Inr r)) \<and>
       (\<forall>e. findOptimalQuality enc (Some (Inl e)) target =
              Some (Inr \<lparr>blob = b, dataUrl = u, quality = 0.1\<rparr>)))"
proof -
  have eps: "0 < QUALITY_PRECISION" and range: "MIN_QUALITY \<le> MAX_QUALITY"
    by (simp_all add: QUALITY_PRECISION_def MIN_QUALITY_def MAX_QUALITY_def)
  have never': "\<forall>q. MIN_QUALITY \<le> q \<and> q \<le> MAX_QUALITY \<longrightarrow>
      (\<exists>b u. enc q = Inr (b, u) \<and> target < blob_size b)"
    using never by (simp add: MIN_QUALITY_def MAX_QUALITY_def)
  have A: "binary_search enc target MIN_QUALITY MAX_QUALITY QUALITY_PRECISION =
      Some (Inl (Error ''Could not compress image to target size''))"
    using eps range never' by (rule binary_search_unreachable)
  have B: "mime file \<in> set supportedTypes \<and> TARGET_SIZE < blob_size file \<and>
     createImageFromFile env file = Inr img \<and> canvas_size file img = (w, h) \<and>
     getContext env w h \<and> canvasToBlob env img w h = enc \<and> target = TARGET_SIZE \<longrightarrow>
       JPEGCompressor_compress env file =
         Some (Inl (Error ''Could not compress image to target size''))"
    using A by (auto simp: JPEGCompressor_compress_def)
  have h1: "(0::real) < 0.01" and h2: "(0.1::real) \<le> 0.95" by simp_all
  have C: "\<exists>b u. enc 0.1 = Inr (b, u) \<and> target < blob_size b \<and>
       findOptimalQuality enc None target = None \<and>
       (\<forall>r. findOptimalQuality enc (Some (Inr r)) target = Some (Inr r)) \<and>
       (\<forall>e. findOptimalQuality enc (Some (Inl e)) target =
              Some (Inr \<lparr>blob = b, dataUrl = u, quality = 0.1\<rparr>))"
  proof -
    from capped_binary_search_unreachable[OF h1 h2 never, of None]
    obtain b u where bu: "enc 0.1 = Inr (b, u)" "target < blob_size b" by blast
    have "capped_binary_search enc p target 0.1 0.95 0.01 =
             (case p of
                None \<Rightarrow> None
              | Some (Inr r) \<Rightarrow> Some (Inr r)
              | Some (Inl e) \<Rightarrow> Some (Inr \<lparr>blob = b, dataUrl = u, quality = 0.1\<rparr>))" for p
      using capped_binary_search_unreachable[OF h1 h2 never, of p] bu by auto
    then show ?thesis using bu by (auto simp: findOptimalQuality_def)
  qed
  show ?thesis using A B C by blast
qed


theorem target_unreachable_witness:
  "encoder_of_sizes (\<lambda>q. 200000) 0.1 = Inr (blob_of_size 200000, ''data:image/jpeg;base64,'') \<and>
   TARGET_SIZE < blob_size (blob_of_size 200000) \<and>
   JPEGCompressor_compress (browser_with (encoder_of_sizes (\<lambda>q. 200000))) (blob_of_size 150000) =
     Some (Inl (Error ''Could not compress image to target size'')) \<and>
   findOptimalQuality (encoder_of_sizes (\<lambda>q. 200000)) (Some (Inl (Error ''timeout''))) TARGET_SIZE =
     Some (Inr \<lparr>blob = blob_of_size 200000, dataUrl = ''data:image/jpeg;base64,'',
                quality = 0.1\<rparr>)"
proof -
  let ?enc = "encoder_of_sizes (\<lambda>q. 200000)"
  let ?env = "browser_with ?enc"
  let ?file = "blob_of_size 150000"
  let ?img = "\<lparr>naturalWidth = 640, naturalHeight = 480\<rparr>"
  have never: "\<forall>q. 0.1 \<le> q \<and> q \<le> 0.95 \<longrightarrow>
      (\<exists>b u. ?enc q = Inr (b, u) \<and> TARGET_SIZE < blob_size b)"
    by (simp add: encoder_of_sizes_def TARGET_SIZE_def)
  have e: "?enc 0.1 = Inr (blob_of_size 200000, ''data:image/jpeg;base64,'')"
    "TARGET_SIZE < blob_size (blob_of_size 200000)"
    by (simp_all add: encoder_of_sizes_def TARGET_SIZE_def)
  have pre: "mime ?file \<in> set supportedTypes \<and> TARGET_SIZE < blob_size ?file \<and>
     createImageFromFile ?env ?file = Inr ?img \<and> canvas_size ?file ?img = (640, 480) \<and>
     getContext ?env 640 480 \<and> canvasToBlob ?env ?img 640 480 = ?enc \<and>
     TARGET_SIZE = TARGET_SIZE"
    by (simp add: browser_with_def blob_of_size_def blob_size_def supportedTypes_def
          TARGET_SIZE_def canvas_size_def)
  note t = target_unreachable[OF never, of ?file ?env ?img 640 480]
  from t pre have A: "JPEGCompressor_compress ?env ?file =
     Some (Inl (Error ''Could not compress image to target size''))"
    by blast
  from t e have B: "findOptimalQuality ?enc (Some (Inl (Error ''timeout''))) TARGET_SIZE =
     Some (Inr \<lparr>blob = blob_of_size 200000, dataUrl = ''data:image/jpeg;base64,'',
                quality = 0.1\<rparr>)"
    by auto
  from e A B show ?thesis by blast
qed

text \<open>
  The claim fails on both paths. With an encoder that returns 200000 bytes at every
  quality, the simple compressor raises on a 150000-byte JPEG file; with an encoder whose
  smallest encoding, at quality 0.1, has 150000 bytes, the advanced search returns the
  90000 bytes of a fulfilled progressive attempt, not the minimum-quality encoding.
\<close>

theorem target_unreachable_counterexample:
  "JPEGCompressor_compress (browser_with (encoder_of_sizes (\<lambda>q. 200000))) (blob_of_size 150000) =
     Some (Inl (Error ''Could not compress image to target size'')) \<and>
   encoder_of_sizes (\<lambda>q. if q \<le> 0.1 then 150000 else 200000) 0.1 =
     Inr (blob_of_size 150000, ''data:image/jpeg;base64,'') \<and>
   findOptimalQuality (encoder_of_sizes (\<lambda>q. if q \<le> 0.1 then 150000 else 200000))
     (Some (Inr \<lparr>blob = blob_of_size 90000, dataUrl = ''data:image/jpeg;base64,'',
                 quality = 0.9\<rparr>)) TARGET_SIZE =
     Some (Inr \<lparr>blob = blob_of_size 90000, dataUrl = ''data:image/jpeg;base64,'',
                quality = 0.9\<rparr>) \<and>
   blob_of_size 90000 \<noteq> blob_of_size 150000"
  by (simp add: JPEGCompressor_compress_def browser_with_def canvas_size_def supportedTypes_def
        binary_search_def search_loop.simps findOptimalQuality_def capped_binary_search_def
        capped_search_loop.simps maxIterations_value maxIterations_value_normal
        encoder_of_sizes_def Let_def
        TARGET_SIZE_def MIN_QUALITY_def MAX_QUALITY_def QUALITY_PRECISION_def blob_of_size_def
        blob_size_def)

section \<open>Quantization of pixel data\<close>

lemma unat_clamp8: "unat (clamp8 n) = min n 255"
  by (simp add: clamp8_def unat_of_nat min_def)

lemma unat_quantize: "unat (quantize level v) = (unat v div level) * level"
proof -
  define n where "n = (unat v div level) * level"
  have "n \<le> unat v"
    unfolding n_def by (metis div_times_less_eq_dividend)
  moreover have "unat v < 256" using unsigned_less[of v, where 'a=nat] by simp
  ultimately have "min n 255 = n" by simp
  then show ?thesis by (simp add: quantize_def unat_clamp8 n_def)
qed

lemma quantize_idem: "quantize level (quantize level v) = quantize level v"
proof (cases "level = 0")
  case True
  then show ?thesis by (simp add: quantize_def unat_clamp8 clamp8_def)
next
  case False
  then show ?thesis by (simp add: quantize_def[of level "quantize level v"] unat_quantize quantize_def[symmetric])
qed

lemma map_quantize_idem: "map (quantize level) (map (quantize level) xs) = map (quantize level) xs"
  by (simp add: quantize_idem)

lemma binarize_idem: "binarize (binarize a) = binarize a"
  by (simp add: binarize_def)

lemma binarize_zero: "binarize a = 0 \<longleftrightarrow> unat a < 128"
  by (simp add: binarize_def)

lemma reduceColorsForGraphical_idem:
  "reduceColorsForGraphical (reduceColorsForGraphical data) = reduceColorsForGraphical data"
proof (induction data rule: reduceColorsForGraphical.induct)
  case (1 r g b a rest)
  then show ?case by (simp add: quantize_idem binarize_idem)
qed (simp_all add: quantize_idem)

lemma optimizeColors_idem:
  "optimizeColors p (optimizeColors p data) = optimizeColors p data"
proof (induction p data rule: optimizeColors.induct)
  case (1 p r g b a rest)
  then show ?case by (simp add: quantize_idem)
qed (simp_all add: quantize_idem)

text \<open>
  C9. Applying \<open>reduceColorsForGraphical\<close> twice gives the same array as applying it once,
  and so does \<open>optimizeColorsForPNG\<close> (with the same width and height), for every byte
  array, whatever its length.
\<close>

theorem quantization_idempotent:
  "reduceColorsForGraphical (reduceColorsForGraphical data) = reduceColorsForGraphical data \<and>
   optimizeColorsForPNG (optimizeColorsForPNG data width height) width height =
     optimizeColorsForPNG data width height"
  by (simp add: reduceColorsForGraphical_idem optimizeColorsForPNG_def optimizeColors_idem)


theorem quantization_idempotent_witness:
  "reduceColorsForGraphical
     (reduceColorsForGraphical [13, 200, 255, 100, 9, 9, 9, 0, 77, 130, 5, 200, 17, 33]) =
     [8, 200, 248, 0, 9, 9, 9, 0, 72, 128, 0, 255, 16, 32] \<and>
   optimizeColorsForPNG
     (optimizeColorsForPNG [13, 200, 255, 100, 9, 9, 9, 0, 77, 130, 5, 200, 17, 33] 2 2) 2 2 =
     [0, 0, 0, 0, 0, 0, 0, 0, 72, 128, 0, 255, 16, 32]"
proof -
  have a: "reduceColorsForGraphical [13, 200, 255, 100, 9, 9, 9, 0, 77, 130, 5, 200, 17, 33] =
     [8, 200, 248, 0, 9, 9, 9, 0, 72, 128, 0, 255, 16, 32]"
    by (simp add: quantize_def clamp8_def binarize_def)
  have b: "optimizeColorsForPNG [13, 200, 255, 100, 9, 9, 9, 0, 77, 130, 5, 200, 17, 33] 2 2 =
     [0, 0, 0, 0, 0, 0, 0, 0, 72, 128, 0, 255, 16, 32]"
    by (simp add: optimizeColorsForPNG_def quantize_def clamp8_def)
  show ?thesis
    using quantization_idempotent
            [of "[13, 200, 255, 100, 9, 9, 9, 0, 77, 130, 5, 200, 17, 33]" 2 2]
    unfolding a b .
qed

section \<open>The classifier\<close>

lemma decide_table: "decide m = first_match decision_table Mixed m"
  by (simp add: decide_def decision_table_def)

lemma analyzeImageType_sampled:
  assumes n: "sampleSize = min (min (naturalWidth img) (naturalHeight img)) 300"
    and c: "sampleContext env sampleSize" and p: "0 < sampleSize"
  shows "analyzeImageType env img =
        Inr (decide (sample_metrics sampleSize (samplePixels env img sampleSize)))"
proof -
  have "analyzeImageType env img =
     (if \<not> sampleContext env sampleSize then Inl (Error ''Could not get canvas context'')
         else if sampleSize = 0 then Inl (Error ''IndexSizeError'')
         else Inr (decide (sample_metrics sampleSize (samplePixels env img sampleSize))))"
    unfolding analyzeImageType_def Let_def n ..
  with c p show ?thesis by simp
qed

text \<open>
  C2. The result of the classification is the first rule of the decision table that
  holds of the derived ratios and the transparency flag, in the order lineart,
  photographic, graphical, and mixed when none holds; and \<open>analyzeImageType\<close> returns that
  result for the ratios derived from the sampled pixels, whenever the sample canvas has a
  context and at least one pixel. The ratios, their sum and the thresholds are the doubles
  of the program.
\<close>

theorem classifier_decision_table:
  "decide m = first_match decision_table Mixed m \<and>
   (decide m = Lineart \<longleftrightarrow>
      (blackWhiteRatio m > round_double 0.8 \<or> js_add (blackWhiteRatio m) (grayRatio m) > round_double 0.9) \<and> edgeRatio m > round_double 0.05) \<and>
   (decide m = Photographic \<longleftrightarrow>
      \<not> ((blackWhiteRatio m > round_double 0.8 \<or> js_add (blackWhiteRatio m) (grayRatio m) > round_double 0.9) \<and> edgeRatio m > round_double 0.05) \<and>
      colorRatio m > round_double 0.5 \<and> edgeRatio m < round_double 0.1) \<and>
   (decide m = Graphical \<longleftrightarrow>
      \<not> ((blackWhiteRatio m > round_double 0.8 \<or> js_add (blackWhiteRatio m) (grayRatio m) > round_double 0.9) \<and> edgeRatio m > round_double 0.05) \<and>
      \<not> (colorRatio m > round_double 0.5 \<and> edgeRatio m < round_double 0.1) \<and>
      (colorRatio m < round_double 0.2 \<or> edgeRatio m > round_double 0.2 \<or> hasTransparency m)) \<and>
   (decide m = Mixed \<longleftrightarrow>
      \<not> ((blackWhiteRatio m > round_double 0.8 \<or> js_add (blackWhiteRatio m) (grayRatio m) > round_double 0.9) \<and> edgeRatio m > round_double 0.05) \<and>
      \<not> (colorRatio m > round_double 0.5 \<and> edgeRatio m < round_double 0.1) \<and>
      \<not> (colorRatio m < round_double 0.2 \<or> edgeRatio m > round_double 0.2 \<or> hasTransparency m)) \<and>
   (sampleSize = min (min (naturalWidth img) (naturalHeight img)) 300 \<and>
    sampleContext env sampleSize \<and> 0 < sampleSize \<longrightarrow>
      analyzeImageType env img =
        Inr (first_match decision_table Mixed
               (sample_metrics sampleSize (samplePixels env img sampleSize))))"
proof -
  define r1 where "r1 \<longleftrightarrow>
    (blackWhiteRatio m > round_double 0.8 \<or> js_add (blackWhiteRatio m) (grayRatio m) > round_double 0.9) \<and> edgeRatio m > round_double 0.05"
  define r2 where "r2 \<longleftrightarrow> colorRatio m > round_double 0.5 \<and> edgeRatio m < round_double 0.1"
  define r3 where "r3 \<longleftrightarrow> colorRatio m < round_double 0.2 \<or> edgeRatio m > round_double 0.2 \<or> hasTransparency m"
  have d: "decide m = (if r1 then Lineart else if r2 then Photographic
                       else if r3 then Graphical else Mixed)"
    unfolding decide_def r1_def r2_def r3_def ..
  have "(decide m = Lineart \<longleftrightarrow> r1) \<and> (decide m = Photographic \<longleftrightarrow> \<not> r1 \<and> r2) \<and>
        (decide m = Graphical \<longleftrightarrow> \<not> r1 \<and> \<not> r2 \<and> r3) \<and>
        (decide m = Mixed \<longleftrightarrow> \<not> r1 \<and> \<not> r2 \<and> \<not> r3)"
    unfolding d by simp
  then have iffs: "(decide m = Lineart \<longleftrightarrow>
      (blackWhiteRatio m > round_double 0.8 \<or> js_add (blackWhiteRatio m) (grayRatio m) > round_double 0.9) \<and> edgeRatio m > round_double 0.05) \<and>
   (decide m = Photographic \<longleftrightarrow>
      \<not> ((blackWhiteRatio m > round_double 0.8 \<or> js_add (blackWhiteRatio m) (grayRatio m) > round_double 0.9) \<and> edgeRatio m > round_double 0.05) \<and>
      colorRatio m > round_double 0.5 \<and> edgeRatio m < round_double 0.1) \<and>
   (decide m = Graphical \<longleftrightarrow>
      \<not> ((blackWhiteRatio m > round_double 0.8 \<or> js_add (blackWhiteRatio m) (grayRatio m) > round_double 0.9) \<and> edgeRatio m > round_double 0.05) \<and>
      \<not> (colorRatio m > round_double 0.5 \<and> edgeRatio m < round_double 0.1) \<and>
      (colorRatio m < round_double 0.2 \<or> edgeRatio m > round_double 0.2 \<or> hasTransparency m)) \<and>
   (decide m = Mixed \<longleftrightarrow>
      \<not> ((blackWhiteRatio m > round_double 0.8 \<or> js_add (blackWhiteRatio m) (grayRatio m) > round_double 0.9) \<and> edgeRatio m > round_double 0.05) \<and>
      \<not> (colorRatio m > round_double 0.5 \<and> edgeRatio m < round_double 0.1) \<and>
      \<not> (colorRatio m < round_double 0.2 \<or> edgeRatio m > round_double 0.2 \<or> hasTransparency m))"
    unfolding r1_def r2_def r3_def .
  have an: "sampleSize = min (min (naturalWidth img) (naturalHeight img)) 300 \<and>
    sampleContext env sampleSize \<and> 0 < sampleSize \<longrightarrow>
      analyzeImageType env img =
        Inr (first_match decision_table Mixed
               (sample_metrics sampleSize (samplePixels env img sampleSize)))"
    using analyzeImageType_sampled[of sampleSize img env] decide_table by metis
  show ?thesis using decide_table[of m] iffs an by blast
qed

theorem classifier_decision_table_witness:
  "(2::nat) = min (min (naturalWidth \<lparr>naturalWidth = 2, naturalHeight = 2\<rparr>)
                       (naturalHeight \<lparr>naturalWidth = 2, naturalHeight = 2\<rparr>)) 300 \<and>
   sampleContext checkerboard_sampler 2 \<and> (0::nat) < 2 \<and>
   sample_metrics 2 checkerboard =
     \<lparr>colorRatio = 1 / 2, edgeRatio = 1 / 4, blackWhiteRatio = 1, grayRatio = 0,
      hasTransparency = False\<rparr> \<and>
   analyzeImageType checkerboard_sampler \<lparr>naturalWidth = 2, naturalHeight = 2\<rparr> = Inr Lineart \<and>
   (10::nat) = min (min (naturalWidth \<lparr>naturalWidth = 10, naturalHeight = 10\<rparr>)
                        (naturalHeight \<lparr>naturalWidth = 10, naturalHeight = 10\<rparr>)) 300 \<and>
   sampleContext black_gray_red_sampler 10 \<and> (0::nat) < 10 \<and>
   sample_metrics 10 black_gray_red =
     \<lparr>colorRatio = js_div 3 100, edgeRatio = js_div 18 100, blackWhiteRatio = js_div 56 100,
      grayRatio = js_div 34 100, hasTransparency = False\<rparr> \<and>
   js_add (js_div 56 100) (js_div 34 100) > round_double 0.9 \<and>
   analyzeImageType black_gray_red_sampler \<lparr>naturalWidth = 10, naturalHeight = 10\<rparr> =
     Inr Lineart"
proof -
  let ?img = "\<lparr>naturalWidth = 2, naturalHeight = 2\<rparr>"
  have h: "(2::nat) = min (min (naturalWidth ?img) (naturalHeight ?img)) 300"
    "sampleContext checkerboard_sampler 2" "(0::nat) < 2"
    by (simp_all add: checkerboard_sampler_def)
  have m: "sample_metrics 2 checkerboard =
     \<lparr>colorRatio = 1 / 2, edgeRatio = 1 / 4, blackWhiteRatio = 1, grayRatio = 0,
      hasTransparency = False\<rparr>"
    by code_simp
  have f: "first_match decision_table Mixed
            \<lparr>colorRatio = 1 / 2, edgeRatio = 1 / 4, blackWhiteRatio = 1, grayRatio = 0,
             hasTransparency = False\<rparr> = Lineart"
    by code_simp
  have s: "samplePixels checkerboard_sampler ?img 2 = checkerboard"
    by (simp add: checkerboard_sampler_def)
  from classifier_decision_table[of _ 2 ?img checkerboard_sampler] h
  have "analyzeImageType checkerboard_sampler ?img =
        Inr (first_match decision_table Mixed
               (sample_metrics 2 (samplePixels checkerboard_sampler ?img 2)))"
    by blast
  then have A: "analyzeImageType checkerboard_sampler ?img = Inr Lineart"
    unfolding s m f .
  let ?img' = "\<lparr>naturalWidth = 10, naturalHeight = 10\<rparr>"
  have h': "(10::nat) = min (min (naturalWidth ?img') (naturalHeight ?img')) 300"
    "sampleContext black_gray_red_sampler 10" "(0::nat) < 10"
    by (simp_all add: black_gray_red_sampler_def)
  have m': "sample_metrics 10 black_gray_red =
     \<lparr>colorRatio = js_div 3 100, edgeRatio = js_div 18 100, blackWhiteRatio = js_div 56 100,
      grayRatio = js_div 34 100, hasTransparency = False\<rparr>"
    by code_simp
  have g: "js_add (js_div 56 100) (js_div 34 100) > round_double 0.9"
    by code_simp
  have f': "first_match decision_table Mixed
             \<lparr>colorRatio = js_div 3 100, edgeRatio = js_div 18 100,
              blackWhiteRatio = js_div 56 100, grayRatio = js_div 34 100,
              hasTransparency = False\<rparr> = Lineart"
    by code_simp
  have s': "samplePixels black_gray_red_sampler ?img' 10 = black_gray_red"
    by (simp add: black_gray_red_sampler_def)
  from classifier_decision_table[of _ 10 ?img' black_gray_red_sampler] h'
  have "analyzeImageType black_gray_red_sampler ?img' =
        Inr (first_match decision_table Mixed
               (sample_metrics 10 (samplePixels black_gray_red_sampler ?img' 10)))"
    by blast
  then have B: "analyzeImageType black_gray_red_sampler ?img' = Inr Lineart"
    unfolding s' m' f' .
  from h m A h' m' g B show ?thesis by blast
qed

section \<open>The size check of the entry points\<close>

lemma blob_size_file_of [simp]: "blob_size (file_of m n) = n"
  by (simp add: blob_size_def file_of_def)

lemma mime_file_of [simp]: "mime (file_of m n) = m"
  by (simp add: file_of_def)

text \<open>
  C7, as the code has it. For every file of a supported MIME type (and, for the advanced
  PNG compressor, of at most 50MB) whose size is at most the target size and that can be
  read as a data URL, \<open>compress\<close> returns the file itself as the blob, with that data URL and
  quality 1.0, whatever the decoder, the classifier, the strategies, the worker pool and the
  encoder would do: none of them takes part in the result.
\<close>

theorem size_check_passthrough:
  "(mime file \<in> set supportedTypes \<and> blob_size file \<le> TARGET_SIZE \<and> readUrl file = Inr url \<longrightarrow>
      JPEGCompressor_compress
        \<lparr>fileToDataURL = readUrl, createImageFromFile = decode, getContext = getCtx,
         canvasToBlob = encode\<rparr> file =
        Some (Inr \<lparr>blob = file, dataUrl = url, quality = 1.0\<rparr>)) \<and>
   (mime file = ''image/png'' \<and> blob_size file \<le> PNG_TARGET_SIZE \<and>
    pngFileToDataURL methods file = Inr url \<longrightarrow>
      PNGCompressor_compress methods env file =
        Some (Inr \<lparr>blob = file, dataUrl = url, quality = 1.0\<rparr>)) \<and>
   (mime file = ''image/png'' \<and> blob_size file \<le> MAX_SIZE \<and>
    blob_size file \<le> (case optionsTargetSize of
                          None \<Rightarrow> TARGET_SIZE_BASE
                        | Some t \<Rightarrow> if t = 0 then TARGET_SIZE_BASE else t) \<and>
    advFileToDataURL advanced file = Inr url \<longrightarrow>
      PNGCompressorAdvanced_compress advanced file optionsTargetSize =
        Some (Inr \<lparr>blob = file, dataUrl = url, quality = 1.0\<rparr>))"
  by (simp add: JPEGCompressor_compress_def PNGCompressor_compress_def
        PNGCompressorAdvanced_compress_def Let_def)

theorem size_check_passthrough_witness:
  "mime (file_of ''image/jpeg'' 5000) \<in> set supportedTypes \<and>
   blob_size (file_of ''image/jpeg'' 5000) \<le> TARGET_SIZE \<and>
   JPEGCompressor_compress (browser_with (encoder_of_sizes (\<lambda>q. 200000)))
     (file_of ''image/jpeg'' 5000) =
     Some (Inr \<lparr>blob = file_of ''image/jpeg'' 5000, dataUrl = ''data:image/jpeg;base64,'',
                quality = 1\<rparr>)"
proof -
  have h: "mime (file_of ''image/jpeg'' 5000) \<in> set supportedTypes"
    "blob_size (file_of ''image/jpeg'' 5000) \<le> TARGET_SIZE"
    by (simp_all add: supportedTypes_def TARGET_SIZE_def)
  have b: "browser_with (encoder_of_sizes (\<lambda>q. 200000)) =
     \<lparr>fileToDataURL = (\<lambda>f. Inr ''data:image/jpeg;base64,''),
      createImageFromFile = (\<lambda>f. Inr \<lparr>naturalWidth = 640, naturalHeight = 480\<rparr>),
      getContext = (\<lambda>w h. True),
      canvasToBlob = (\<lambda>img w h. encoder_of_sizes (\<lambda>q. 200000))\<rparr>"
    by (simp add: browser_with_def)
  have u: "(\<lambda>f::File. Inr ''data:image/jpeg;base64,'' :: error + string)
             (file_of ''image/jpeg'' 5000) = Inr ''data:image/jpeg;base64,''"
    by simp
  from size_check_passthrough
         [of "file_of ''image/jpeg'' 5000"
             "\<lambda>f. Inr ''data:image/jpeg;base64,''"
             "''data:image/jpeg;base64,''"
             "\<lambda>f. Inr \<lparr>naturalWidth = 640, naturalHeight = 480\<rparr>"
             "\<lambda>w h. True"
             "\<lambda>img w h. encoder_of_sizes (\<lambda>q. 200000)"]
  have "JPEGCompressor_compress (browser_with (encoder_of_sizes (\<lambda>q. 200000)))
     (file_of ''image/jpeg'' 5000) =
     Some (Inr \<lparr>blob = file_of ''image/jpeg'' 5000, dataUrl = ''data:image/jpeg;base64,'',
                quality = 1.0\<rparr>)"
    unfolding b using h u by blast
  then have "JPEGCompressor_compress (browser_with (encoder_of_sizes (\<lambda>q. 200000)))
     (file_of ''image/jpeg'' 5000) =
     Some (Inr \<lparr>blob = file_of ''image/jpeg'' 5000, dataUrl = ''data:image/jpeg;base64,'',
                quality = 1\<rparr>)"
    by simp
  with h show ?thesis by blast
qed

text \<open>
  Without these conditions the claim fails: a PNG file of 5000 bytes given to the JPEG
  compressor, a GIF file of 5000 bytes given to the PNG compressor, and a PNG file of
  60MB given to the advanced PNG compressor with a target of 64MB all meet the target
  size, and all three calls raise.
\<close>

theorem size_check_counterexample:
  "blob_size (file_of ''image/png'' 5000) \<le> TARGET_SIZE \<and>
   JPEGCompressor_compress (browser_with (encoder_of_sizes (\<lambda>q. 200000)))
     (file_of ''image/png'' 5000) =
     Some (Inl (Error ''Unsupported file type. Only JPEG/JPG files are supported.'')) \<and>
   blob_size (file_of ''image/gif'' 5000) \<le> PNG_TARGET_SIZE \<and>
   PNGCompressor_compress
     \<lparr>pngFileToDataURL = (\<lambda>f. Inr ''data:image/gif;base64,''),
      pngCreateImageFromFile = (\<lambda>f. Inr \<lparr>naturalWidth = 2, naturalHeight = 2\<rparr>),
      compressLineArt = (\<lambda>img n. None), compressPhotographicPNG = (\<lambda>img n. None),
      compressGraphicalPNG = (\<lambda>img n. None), compressHybridPNG = (\<lambda>img n. None)\<rparr>
     checkerboard_sampler (file_of ''image/gif'' 5000) =
     Some (Inl (Error ''Unsupported file type. Only PNG files are supported.'')) \<and>
   blob_size (file_of ''image/png'' (60 * 1024 * 1024)) \<le> 64 * 1024 * 1024 \<and>
   PNGCompressorAdvanced_compress
     \<lparr>advFileToDataURL = (\<lambda>f. Inr ''data:image/png;base64,''),
      workerInitPromise = Some (Inr ()),
      compressLargeImage = (\<lambda>f n. None), compressWithDownscaling = (\<lambda>f n. None),
      compressWithQualityPreservation = (\<lambda>f n. None),
      compressWithSimpleApproach = (\<lambda>f n. None), compressWithSimpleTiling = (\<lambda>f n. None)\<rparr>
     (file_of ''image/png'' (60 * 1024 * 1024)) (Some (64 * 1024 * 1024)) =
     Some (Inl (Error ''File size exceeds maximum supported size (50MB)''))"
  by (simp add: JPEGCompressor_compress_def PNGCompressor_compress_def
        PNGCompressorAdvanced_compress_def supportedTypes_def TARGET_SIZE_def
        PNG_TARGET_SIZE_def MAX_SIZE_def)

section \<open>Release of pooled workers\<close>

lemma is_busy_releaseWorker [simp]: "\<not> is_busy (releaseWorker p wid now) wid"
  by (induction p) auto

lemma is_busy_release [simp]: "\<not> is_busy (pool (release now t)) (acquired t)"
  by (simp add: release_def)

lemma settle_fields [simp]:
  "pool (settle outcome t) = pool t" "acquired (settle outcome t) = acquired t"
  "listening (settle outcome t) = listening t" "timer (settle outcome t) = timer t"
  "settled (settle outcome t) \<noteq> None"
  by (simp_all add: settle_def split: option.split)

lemma release_fields [simp]:
  "acquired (release now t) = acquired t" "settled (release now t) = settled t"
  "listening (release now t) = listening t" "timer (release now t) = timer t"
  by (simp_all add: release_def)

text \<open>
  On every path but one the worker is released when the promise of
  \<open>compressWithPngEncoder\<close> settles: as long as the callback of \<open>canvas.toBlob\<close> did not
  receive \<open>null\<close>, a settled promise means an idle worker.
\<close>

lemma pngEncoder_step_released:
  assumes "ev \<noteq> BlobNull"
    and "settled t \<noteq> None \<longrightarrow> \<not> is_busy (pool t) (acquired t)"
  shows "(settled (pngEncoder_step now ev t) \<noteq> None \<longrightarrow>
          \<not> is_busy (pool (pngEncoder_step now ev t)) (acquired (pngEncoder_step now ev t)))"
  using assms
  by (cases "(now, ev, t)" rule: pngEncoder_step.cases) (auto simp: settle_def release_def split: option.splits)

lemma pngEncoder_run_released:
  assumes "BlobNull \<notin> snd ` set evs"
    and "settled t \<noteq> None \<longrightarrow> \<not> is_busy (pool t) (acquired t)"
  shows "settled (pngEncoder_run evs t) \<noteq> None \<longrightarrow>
          \<not> is_busy (pool (pngEncoder_run evs t)) (acquired (pngEncoder_run evs t))"
  using assms
proof (induction evs arbitrary: t)
  case Nil
  then show ?case by simp
next
  case (Cons a evs)
  obtain now ev where a: "a = (now, ev)" by (cases a)
  have "ev \<noteq> BlobNull" using Cons.prems(1) a by auto
  from pngEncoder_step_released[OF this Cons.prems(2)]
  have "settled (pngEncoder_step now ev t) \<noteq> None \<longrightarrow>
          \<not> is_busy (pool (pngEncoder_step now ev t)) (acquired (pngEncoder_step now ev t))" .
  moreover have "BlobNull \<notin> snd ` set evs" using Cons.prems(1) by auto
  ultimately show ?case unfolding a using Cons.IH by simp
qed

lemma pngEncoder_start_released:
  "settled (pngEncoder_start p wid thrown now) \<noteq> None \<longrightarrow>
     \<not> is_busy (pool (pngEncoder_start p wid thrown now)) (acquired (pngEncoder_start p wid thrown now))"
  by (cases thrown) (simp_all add: pngEncoder_start_def Let_def release_def settle_def)

text \<open>
  C8 fails on the code. With a pool of two idle workers, the task takes worker 0. When
  the callback of \<open>canvas.toBlob\<close> receives \<open>null\<close>, the promise of \<open>compressWithPngEncoder\<close> is
  rejected with "Failed to convert canvas to blob", the timer that would have released the
  worker is cleared, and worker 0 stays marked busy; \<open>compressWithQualityPreservation\<close>
  rejects in the same way and leaves worker 0 busy as well.
\<close>

theorem worker_not_released:
  "getWorker [\<lparr>worker_id = 0, busy = False, lastUsed = 0\<rparr>,
              \<lparr>worker_id = 1, busy = False, lastUsed = 0\<rparr>] 2 (Inr ()) 5 =
     Some (Inr (\<lparr>worker_id = 0, busy = True, lastUsed = 5\<rparr>,
                [\<lparr>worker_id = 0, busy = True, lastUsed = 5\<rparr>,
                 \<lparr>worker_id = 1, busy = False, lastUsed = 0\<rparr>])) \<and>
   pngEncoder_run [(7, BlobNull)]
     (pngEncoder_start [\<lparr>worker_id = 0, busy = True, lastUsed = 5\<rparr>,
                        \<lparr>worker_id = 1, busy = False, lastUsed = 0\<rparr>] 0 None 5) =
     \<lparr>pool = [\<lparr>worker_id = 0, busy = True, lastUsed = 5\<rparr>,
              \<lparr>worker_id = 1, busy = False, lastUsed = 0\<rparr>],
      acquired = 0, listening = True, timer = False,
      settled = Some (Inl (Error ''Failed to convert canvas to blob''))\<rparr> \<and>
   preservation_run [(7, BlobNull)]
     (preservation_start [\<lparr>worker_id = 0, busy = True, lastUsed = 5\<rparr>,
                          \<lparr>worker_id = 1, busy = False, lastUsed = 0\<rparr>] 0 None) =
     \<lparr>pool = [\<lparr>worker_id = 0, busy = True, lastUsed = 5\<rparr>,
              \<lparr>worker_id = 1, busy = False, lastUsed = 0\<rparr>],
      acquired = 0, listening = True, timer = False,
      settled = Some (Inl (Error ''Failed to convert canvas to blob''))\<rparr> \<and>
   is_busy [\<lparr>worker_id = 0, busy = True, lastUsed = 5\<rparr>,
            \<lparr>worker_id = 1, busy = False, lastUsed = 0\<rparr>] 0"
  by (simp add: getWorker_def pngEncoder_start_def preservation_start_def settle_def)

section \<open>The quality ladder of the advanced PNG compressor\<close>

lemma probe_levels_char:
  "probe_levels enc t qs ps = (out, ps') \<Longrightarrow>
     (\<exists>pre. ps' = ps @ pre \<and> prefix pre qs \<and>
        (\<forall>q \<in> set (butlast pre). \<exists>b u. enc q = Inr (b, u) \<and> t < blob_size b) \<and>
        (out = Inr None \<longrightarrow> pre = qs \<and> (\<forall>q \<in> set qs. \<exists>b u. enc q = Inr (b, u) \<and> t < blob_size b)) \<and>
        (out \<noteq> Inr None \<longrightarrow> pre \<noteq> []) \<and>
        (\<forall>r. out = Inr (Some r) \<longrightarrow> quality r = last pre \<and>
            enc (quality r) = Inr (blob r, dataUrl r) \<and> blob_size (blob r) \<le> t) \<and>
        (\<forall>e. out = Inl e \<longrightarrow> enc (last pre) = Inl e))"
proof (induction qs arbitrary: ps)
  case Nil
  then show ?case by auto
next
  case (Cons q qs)
  show ?case
  proof (cases "enc q")
    case (Inl e)
    with Cons.prems have "ps' = ps @ [q]" "out = Inl e" by auto
    with Inl show ?thesis by (intro exI[of _ "[q]"]) auto
  next
    case (Inr bu)
    obtain b u where bu: "bu = (b, u)" by (cases bu)
    show ?thesis
    proof (cases "blob_size b \<le> t")
      case True
      with Cons.prems Inr bu have "ps' = ps @ [q]" "out = Inr (Some \<lparr>blob = b, dataUrl = u, quality = q\<rparr>)" by auto
      with Inr bu True show ?thesis by (intro exI[of _ "[q]"]) auto
    next
      case False
      with Cons.prems Inr bu have "probe_levels enc t qs (ps @ [q]) = (out, ps')" by simp
      from Cons.IH[OF this] obtain pre where pre: "ps' = (ps @ [q]) @ pre" "prefix pre qs"
        "\<forall>q \<in> set (butlast pre). \<exists>b u. enc q = Inr (b, u) \<and> t < blob_size b"
        "out = Inr None \<longrightarrow> pre = qs \<and> (\<forall>q \<in> set qs. \<exists>b u. enc q = Inr (b, u) \<and> t < blob_size b)"
        "out \<noteq> Inr None \<longrightarrow> pre \<noteq> []"
        "\<forall>r. out = Inr (Some r) \<longrightarrow> quality r = last pre \<and>
            enc (quality r) = Inr (blob r, dataUrl r) \<and> blob_size (blob r) \<le> t"
        "\<forall>e. out = Inl e \<longrightarrow> enc (last pre) = Inl e" by blast
      have q: "enc q = Inr (b, u) \<and> t < blob_size b" using Inr bu False by simp
      show ?thesis
      proof (intro exI[of _ "q # pre"] conjI)
        show "\<forall>q\<in>set (butlast (q # pre)). \<exists>b u. enc q = Inr (b, u) \<and> t < blob_size b"
          using pre(3) q by (cases pre) auto
        show "\<forall>r. out = Inr (Some r) \<longrightarrow> quality r = last (q # pre) \<and>
            enc (quality r) = Inr (blob r, dataUrl r) \<and> blob_size (blob r) \<le> t"
          using pre(5,6) by auto
        show "\<forall>e. out = Inl e \<longrightarrow> enc (last (q # pre)) = Inl e"
          using pre(5,7) by auto
      qed (use pre q in auto)
    qed
  qed
qed

lemma probe_levels_nil:
  assumes "probe_levels enc t qs [] = (out, pre)"
  shows "prefix pre qs"
    and "\<forall>q \<in> set (butlast pre). \<exists>b u. enc q = Inr (b, u) \<and> t < blob_size b"
    and "out = Inr None \<Longrightarrow> pre = qs"
    and "out = Inr None \<Longrightarrow> \<forall>q \<in> set qs. \<exists>b u. enc q = Inr (b, u) \<and> t < blob_size b"
    and "out \<noteq> Inr None \<Longrightarrow> pre \<noteq> []"
    and "out = Inr (Some r) \<Longrightarrow> quality r = last pre \<and>
            enc (quality r) = Inr (blob r, dataUrl r) \<and> blob_size (blob r) \<le> t"
    and "out = Inl e \<Longrightarrow> enc (last pre) = Inl e"
proof -
  from probe_levels_char[OF assms]
  obtain pre' where p: "pre = [] @ pre'" and *: "prefix pre' qs \<and>
        (\<forall>q \<in> set (butlast pre'). \<exists>b u. enc q = Inr (b, u) \<and> t < blob_size b) \<and>
        (out = Inr None \<longrightarrow> pre' = qs \<and> (\<forall>q \<in> set qs. \<exists>b u. enc q = Inr (b, u) \<and> t < blob_size b)) \<and>
        (out \<noteq> Inr None \<longrightarrow> pre' \<noteq> []) \<and>
        (\<forall>r. out = Inr (Some r) \<longrightarrow> quality r = last pre' \<and>
            enc (quality r) = Inr (blob r, dataUrl r) \<and> blob_size (blob r) \<le> t) \<and>
        (\<forall>e. out = Inl e \<longrightarrow> enc (last pre') = Inl e)"
    by blast
  from p have pp: "pre' = pre" by simp
  show "prefix pre qs" using * unfolding pp by blast
  show "\<forall>q \<in> set (butlast pre). \<exists>b u. enc q = Inr (b, u) \<and> t < blob_size b" using * unfolding pp by blast
  show "out = Inr None \<Longrightarrow> pre = qs" using * unfolding pp by blast
  show "out = Inr None \<Longrightarrow> \<forall>q \<in> set qs. \<exists>b u. enc q = Inr (b, u) \<and> t < blob_size b" using * unfolding pp by blast
  show "out \<noteq> Inr None \<Longrightarrow> pre \<noteq> []" using * unfolding pp by blast
  show "out = Inr (Some r) \<Longrightarrow> quality r = last pre \<and>
            enc (quality r) = Inr (blob r, dataUrl r) \<and> blob_size (blob r) \<le> t" using * unfolding pp by blast
  show "out = Inl e \<Longrightarrow> enc (last pre) = Inl e" using * unfolding pp by blast
qed

text \<open>
  C10. \<open>PNGCompressorAdvanced.findOptimalQuality\<close> is a fixed descending ladder, not a binary
  search. For every encoder and target: the qualities probed are an initial stretch of
  0.8, 0.6, 0.4, 0.2, 0.1, in that order; every probe before the last one succeeded and was
  larger than the target; a returned result is the encoding at the last probed quality,
  its quality is one of the five, and when that quality is not 0.1 its blob is at most the
  target. When the encoder succeeds at the five qualities, a result is returned.
\<close>

theorem png_findOptimalQuality_ladder:
  "(case png_findOptimalQuality enc t of (out, probes) \<Rightarrow>
      prefix probes [0.8, 0.6, 0.4, 0.2, 0.1] \<and>
      (\<forall>q \<in> set (butlast probes). \<exists>b u. enc q = Inr (b, u) \<and> t < blob_size b) \<and>
      (\<forall>r. out = Inr r \<longrightarrow>
          probes \<noteq> [] \<and> quality r = last probes \<and>
          enc (quality r) = Inr (blob r, dataUrl r) \<and>
          quality r \<in> {0.8, 0.6, 0.4, 0.2, 0.1} \<and>
          (quality r \<noteq> 0.1 \<longrightarrow> blob_size (blob r) \<le> t)) \<and>
      ((\<forall>q \<in> {0.8, 0.6, 0.4, 0.2, 0.1}. \<exists>b u. enc q = Inr (b, u)) \<longrightarrow> (\<exists>r. out = Inr r)))"
proof -
  obtain o1 pre where pl: "probe_levels enc t qualityLevels [] = (o1, pre)"
    by (cases "probe_levels enc t qualityLevels []")
  note c = probe_levels_nil[OF pl]
  have lastin: "pre \<noteq> [] \<Longrightarrow> last pre \<in> {0.8, 0.6, 0.4, 0.2}"
  proof -
    assume "pre \<noteq> []"
    then have "last pre \<in> set pre" by simp
    moreover have "set pre \<subseteq> set qualityLevels" using c(1) by (rule set_mono_prefix)
    ultimately show ?thesis by (auto simp: qualityLevels_def)
  qed
  have "prefix qualityLevels [0.8, 0.6, 0.4, 0.2, 0.1]"
    by (simp add: qualityLevels_def)
  with c(1) have pfx: "prefix pre [0.8, 0.6, 0.4, 0.2, 0.1]"
    by (rule prefix_order.order_trans)
  show ?thesis
  proof (cases o1)
    case (Inl e)
    then have eq: "png_findOptimalQuality enc t = (Inl e, pre)"
      by (simp add: png_findOptimalQuality_def pl)
    have ne: "pre \<noteq> []" using c(5) Inl by simp
    have fail: "enc (last pre) = Inl e" using c(7) Inl by simp
    have "last pre \<in> {0.8, 0.6, 0.4, 0.2, 0.1}" using lastin[OF ne] by blast
    then have "\<not> (\<forall>q \<in> {0.8, 0.6, 0.4, 0.2, 0.1}. \<exists>b u. enc q = Inr (b, u))"
      using fail by (metis sum.distinct(1))
    then show ?thesis unfolding eq using pfx c(2) by simp
  next
    case (Inr ro)
    show ?thesis
    proof (cases ro)
      case None
      have all: "pre = qualityLevels" using c(3) Inr None by simp
      have big: "\<forall>q \<in> set ([0.8, 0.6, 0.4, 0.2] :: real list). \<exists>b u. enc q = Inr (b, u) \<and> t < blob_size b"
        using c(4) Inr None by (simp add: qualityLevels_def)
      have full: "qualityLevels @ [0.1] = [0.8, 0.6, 0.4, 0.2, 0.1]"
        by (simp add: qualityLevels_def)
      show ?thesis
      proof (cases "enc 0.1")
        case (Inl e)
        then have "png_findOptimalQuality enc t = (Inl e, qualityLevels @ [0.1])"
          using Inr None all by (simp add: png_findOptimalQuality_def pl)
        then have eq: "png_findOptimalQuality enc t = (Inl e, [0.8, 0.6, 0.4, 0.2, 0.1])"
          unfolding full .
        show ?thesis unfolding eq using big Inl by simp
      next
        case r: (Inr bu)
        obtain b u where bu: "bu = (b, u)" by (cases bu)
        have "png_findOptimalQuality enc t = (Inr \<lparr>blob = b, dataUrl = u, quality = 0.1\<rparr>, qualityLevels @ [0.1])"
          using Inr None all r bu by (simp add: png_findOptimalQuality_def pl)
        then have eq: "png_findOptimalQuality enc t = (Inr \<lparr>blob = b, dataUrl = u, quality = 0.1\<rparr>, [0.8, 0.6, 0.4, 0.2, 0.1])"
          unfolding full .
        show ?thesis unfolding eq using big r bu by simp
      qed
    next
      case (Some r)
      then have eq: "png_findOptimalQuality enc t = (Inr r, pre)"
        using Inr by (simp add: png_findOptimalQuality_def pl)
      have ne: "pre \<noteq> []" using c(5) Inr Some by simp
      have r: "quality r = last pre" "enc (quality r) = Inr (blob r, dataUrl r)" "blob_size (blob r) \<le> t"
        using c(6)[of r] Inr Some by blast+
      have "quality r \<in> {0.8, 0.6, 0.4, 0.2}" using lastin[OF ne] r(1) by simp
      then have "quality r \<in> {0.8, 0.6, 0.4, 0.2, 0.1}" by blast
      then show ?thesis unfolding eq using pfx c(2) ne r by simp
    qed
  qed
qed


theorem png_findOptimalQuality_ladder_witness:
  "list_all (\<lambda>q. \<exists>b u. encoder_of_sizes (\<lambda>q. if q \<le> 0.5 then 1000 else 200000) q = Inr (b, u))
     [0.8, 0.6, 0.4, 0.2, 0.1] \<and>
   png_findOptimalQuality (encoder_of_sizes (\<lambda>q. if q \<le> 0.5 then 1000 else 200000)) 102400 =
     (Inr \<lparr>blob = blob_of_size 1000, dataUrl = ''data:image/jpeg;base64,'', quality = 0.4\<rparr>,
      [0.8, 0.6, 0.4]) \<and>
   prefix [0.8, 0.6, 0.4] [0.8, 0.6, 0.4, 0.2, 0.1 :: real] \<and>
   blob_size (blob_of_size 1000) \<le> 102400"
proof -
  let ?enc = "encoder_of_sizes (\<lambda>q. if q \<le> 0.5 then 1000 else 200000)"
  have e: "png_findOptimalQuality ?enc 102400 =
     (Inr \<lparr>blob = blob_of_size 1000, dataUrl = ''data:image/jpeg;base64,'', quality = 0.4\<rparr>,
      [0.8, 0.6, 0.4])"
    by (simp add: png_findOptimalQuality_def qualityLevels_def encoder_of_sizes_def)
  from png_findOptimalQuality_ladder[of ?enc 102400]
  have "prefix [0.8, 0.6, 0.4] [0.8, 0.6, 0.4, 0.2, 0.1 :: real] \<and>
        blob_size (blob_of_size 1000) \<le> 102400"
    unfolding e by simp
  moreover have "list_all (\<lambda>q. \<exists>b u. ?enc q = Inr (b, u)) [0.8, 0.6, 0.4, 0.2, 0.1]"
    by (simp add: encoder_of_sizes_def)
  ultimately show ?thesis using e by blast
qed

section \<open>The tile partition\<close>

subsection \<open>The grid\<close>

lemma ceil_div_eq:
  assumes b: "0 < b"
  shows "ceil_div a b = (a + b - 1) div b"
proof -
  define n where "n = (a + b - 1) div b"
  have le: "n * b \<le> a + b - 1" unfolding n_def by (rule div_times_less_eq_dividend)
  have "a + b - 1 < (n + 1) * b"
    unfolding n_def using b by (metis Suc_eq_plus1 dividend_less_div_times add.commute mult.commute mult_Suc)
  then have ge: "a \<le> n * b" using b by (simp add: algebra_simps)
  have lt: "n * b < a + b" using le b by linarith
  have "\<lceil>real a / real b\<rceil> = int n"
  proof (rule ceiling_unique)
    have "real a \<le> real (n * b)" using ge of_nat_le_iff by blast
    then show "real a / real b \<le> real_of_int (int n)"
      using b by (simp add: field_simps)
    have "real (n * b) < real (a + b)" using lt of_nat_less_iff by blast
    then show "real_of_int (int n) - 1 < real a / real b"
      using b by (simp add: field_simps)
  qed
  then show ?thesis by (simp add: ceil_div_def n_def)
qed

lemma less_ceil_div_iff:
  assumes T: "0 < T"
  shows "x < ceil_div w T \<longleftrightarrow> x * T < w"
proof -
  have "x < ceil_div w T \<longleftrightarrow> x + 1 \<le> (w + T - 1) div T"
    by (simp add: ceil_div_eq[OF T] Suc_le_eq)
  also have "\<dots> \<longleftrightarrow> (x + 1) * T \<le> w + T - 1"
    using T by (rule less_eq_div_iff_mult_less_eq)
  also have "\<dots> \<longleftrightarrow> x * T < w"
  proof -
    have "(x + 1) * T = x * T + T" by (simp add: algebra_simps)
    then show ?thesis using T by linarith
  qed
  finally show ?thesis .
qed

lemma div_eq_iff_bounds:
  assumes T: "0 < (T::nat)"
  shows "p div T = x \<longleftrightarrow> x * T \<le> p \<and> p < x * T + T"
proof
  assume "p div T = x"
  then have x: "x = p div T" by simp
  have "(p div T) * T \<le> p" by (rule div_times_less_eq_dividend)
  moreover have "p < (p div T) * T + T"
    using T by (metis dividend_less_div_times add.commute mult.commute)
  ultimately show "x * T \<le> p \<and> p < x * T + T" unfolding x by simp
next
  assume a: "x * T \<le> p \<and> p < x * T + T"
  show "p div T = x"
  proof (rule div_nat_eqI)
    show "T * x \<le> p" using a by (simp add: mult.commute)
    show "p < T * Suc x" using a by (simp add: mult.commute)
  qed
qed

lemma in_span_iff:
  assumes T: "0 < (T::nat)"
  shows "x * T \<le> p \<and> p < x * T + min T (w - x * T) \<longleftrightarrow> p div T = x \<and> p < w"
proof -
  have "x * T \<le> p \<and> p < x * T + min T (w - x * T)
          \<longleftrightarrow> (x * T \<le> p \<and> p < x * T + T) \<and> p < w"
    by auto
  then show ?thesis using div_eq_iff_bounds[OF T, of p x] by simp
qed

lemma inside_tile_at:
  assumes T: "0 < T"
  shows "inside (tile_at w h T x y) px py \<longleftrightarrow>
           px div T = x \<and> py div T = y \<and> px < w \<and> py < h"
  using in_span_iff[OF T, of x px w] in_span_iff[OF T, of y py h]
  by (auto simp: inside_def tile_at_def)

lemma set_tiling:
  "set (tiling w h T) = {tile_at w h T x y | x y. x < ceil_div w T \<and> y < ceil_div h T}"
proof (intro set_eqI iffI)
  fix t
  assume "t \<in> set (tiling w h T)"
  then obtain y where y: "y < ceil_div h T"
      "t \<in> set (map (\<lambda>x. tile_at w h T x y) [0..<ceil_div w T])"
    unfolding tiling_def by auto
  then obtain x where x: "x < ceil_div w T" "t = tile_at w h T x y" by auto
  with y(1) show "t \<in> {tile_at w h T x y | x y. x < ceil_div w T \<and> y < ceil_div h T}"
    by blast
next
  fix t
  assume "t \<in> {tile_at w h T x y | x y. x < ceil_div w T \<and> y < ceil_div h T}"
  then obtain x y where xy: "t = tile_at w h T x y" "x < ceil_div w T" "y < ceil_div h T"
    by blast
  have "\<exists>y' \<in> set [0..<ceil_div h T].
           t \<in> set (map (\<lambda>x. tile_at w h T x y') [0..<ceil_div w T])"
    using xy by (intro bexI[of _ y]) simp_all
  then show "t \<in> set (tiling w h T)"
    unfolding tiling_def by simp
qed

lemma tile_at_inject:
  assumes T: "0 < T" and eq: "tile_at w h T x y = tile_at w h T x' y'"
  shows "x = x' \<and> y = y'"
proof -
  from eq have "x * T = x' * T" "y * T = y' * T" by (simp_all add: tile_at_def)
  with T show ?thesis by simp
qed

lemma tiling_product:
  "tiling w h T =
     map (\<lambda>(y, x). tile_at w h T x y) (List.product [0..<ceil_div h T] [0..<ceil_div w T])"
  by (simp add: tiling_def product_concat_map map_concat comp_def)

lemma distinct_tiling:
  assumes T: "0 < T"
  shows "distinct (tiling w h T)"
proof -
  have "inj_on (\<lambda>(y, x). tile_at w h T x y) (set (List.product [0..<ceil_div h T] [0..<ceil_div w T]))"
    by (rule inj_onI) (auto dest: tile_at_inject[OF T])
  moreover have "distinct (List.product [0..<ceil_div h T] [0..<ceil_div w T])"
    by (simp add: distinct_product)
  ultimately show ?thesis unfolding tiling_product by (simp add: distinct_map)
qed

lemma tile_in_bounds:
  assumes T: "0 < T" and t: "t \<in> set (tiling w h T)"
  shows "tileX t + tileWidth t \<le> w" and "tileY t + tileHeight t \<le> h"
    and "0 < tileWidth t" and "0 < tileHeight t" and "tileWidth t \<le> T" and "tileHeight t \<le> T"
proof -
  from t obtain x y where xy: "t = tile_at w h T x y" "x < ceil_div w T" "y < ceil_div h T"
    unfolding set_tiling by blast
  have lt: "x * T < w" "y * T < h"
    using xy less_ceil_div_iff[OF T] by simp_all
  show "tileX t + tileWidth t \<le> w" "tileY t + tileHeight t \<le> h"
    "0 < tileWidth t" "0 < tileHeight t" "tileWidth t \<le> T" "tileHeight t \<le> T"
    using lt T by (simp_all add: xy(1) tile_at_def)
qed

lemma covering_tile:
  assumes T: "0 < T" and p: "px < w" "py < h"
  shows "tile_at w h T (px div T) (py div T) \<in> set (tiling w h T)"
    and "inside (tile_at w h T (px div T) (py div T)) px py"
proof -
  have "(px div T) * T \<le> px" "(py div T) * T \<le> py"
    by (rule div_times_less_eq_dividend)+
  with p have "(px div T) * T < w" "(py div T) * T < h" by linarith+
  then have "px div T < ceil_div w T" "py div T < ceil_div h T"
    using less_ceil_div_iff[OF T] by simp_all
  then show "tile_at w h T (px div T) (py div T) \<in> set (tiling w h T)"
    unfolding set_tiling by blast
  show "inside (tile_at w h T (px div T) (py div T)) px py"
    using p by (simp add: inside_tile_at[OF T])
qed

lemma inside_unique:
  assumes T: "0 < T" and t: "t \<in> set (tiling w h T)" and i: "inside t px py"
  shows "t = tile_at w h T (px div T) (py div T)" and "px < w" and "py < h"
proof -
  from t obtain x y where xy: "t = tile_at w h T x y"
    unfolding set_tiling by blast
  from i have "px div T = x \<and> py div T = y \<and> px < w \<and> py < h"
    unfolding xy inside_tile_at[OF T] .
  then show "t = tile_at w h T (px div T) (py div T)" "px < w" "py < h"
    using xy by simp_all
qed

declare batched_columns.simps [simp del]

lemma batched_columns_upt:
  "0 < batch \<Longrightarrow> batched_columns batch x n = [x..<n]"
proof (induction batch x n rule: batched_columns.induct)
  case (1 batch x tilesX)
  show ?case
  proof (cases "x < tilesX")
    case False
    then show ?thesis by (subst batched_columns.simps) simp
  next
    case True
    have f: "map (\<lambda>i. x + i) (filter (\<lambda>i. x + i < tilesX) [0..<batch]) = [x..<min (x + batch) tilesX]"
    proof -
      have "filter (\<lambda>i. x + i < tilesX) [0..<b] = [0..<min b (tilesX - x)]" for b
      proof (induction b)
        case 0
        then show ?case by simp
      next
        case (Suc b)
        show ?case
        proof (cases "x + b < tilesX")
          case True
          then have "min (Suc b) (tilesX - x) = Suc b" "min b (tilesX - x) = b" by simp_all
          then show ?thesis using Suc True by simp
        next
          case False
          then have "min (Suc b) (tilesX - x) = tilesX - x" "min b (tilesX - x) = tilesX - x"
            by simp_all
          then show ?thesis using Suc False by simp
        qed
      qed
      then have "map (\<lambda>i. x + i) (filter (\<lambda>i. x + i < tilesX) [0..<batch])
                 = map (\<lambda>i. i + x) [0..<min batch (tilesX - x)]"
        by (simp add: add.commute)
      also have "\<dots> = [x..<min batch (tilesX - x) + x]"
        using map_add_upt[of x "min batch (tilesX - x)"] by simp
      also have "min batch (tilesX - x) + x = min (x + batch) tilesX"
        using True by arith
      finally show ?thesis .
    qed
    have r: "batched_columns batch (x + batch) tilesX = [x + batch..<tilesX]"
      using "1.IH" True "1.prems" by simp
    have "batched_columns batch x tilesX =
            [x..<min (x + batch) tilesX] @ [x + batch..<tilesX]"
      using True "1.prems" f r by (subst batched_columns.simps) simp
    also have "\<dots> = [x..<tilesX]"
    proof (cases "x + batch \<le> tilesX")
      case le: True
      then obtain k where k: "tilesX = (x + batch) + k" using le_Suc_ex by blast
      have "[x..<(x + batch) + k] = [x..<x + batch] @ [x + batch..<(x + batch) + k]"
        by (rule upt_add_eq_append) simp
      with le show ?thesis unfolding k by (simp add: min_def)
    next
      case False
      then show ?thesis by (simp add: min_def)
    qed
    finally show ?thesis .
  qed
qed

lemma tiling_batched_eq: "tiling_batched w h T = tiling w h T"
  by (simp add: tiling_batched_def tiling_def batched_columns_upt)


subsection \<open>Reading and writing rectangles\<close>

lemma putImageData_fields [simp]:
  "rwidth (putImageData img dx dy dst) = rwidth dst"
  "rheight (putImageData img dx dy dst) = rheight dst"
  "length (pixels (putImageData img dx dy dst)) = length (pixels dst)"
  by (simp_all add: putImageData_def)

lemma putImageData_nth:
  assumes "p < length (pixels dst)"
  shows "pixels (putImageData img dx dy dst) ! p =
     (if dx \<le> p mod rwidth dst \<and> p mod rwidth dst < dx + rwidth img \<and>
         dy \<le> p div rwidth dst \<and> p div rwidth dst < dy + rheight img
      then pixels img ! ((p div rwidth dst - dy) * rwidth img + (p mod rwidth dst - dx))
      else pixels dst ! p)"
  using assms by (simp add: putImageData_def Let_def)

lemma getImageData_fields [simp]:
  "rwidth (getImageData src sx sy sw sh) = sw"
  "rheight (getImageData src sx sy sw sh) = sh"
  "length (pixels (getImageData src sx sy sw sh)) = sw * sh"
  by (simp_all add: getImageData_def)

lemma getImageData_nth:
  assumes "k < sw * sh"
  shows "pixels (getImageData src sx sy sw sh) ! k =
           pixels src ! ((sy + k div sw) * rwidth src + (sx + k mod sw))"
  using assms by (simp add: getImageData_def)

lemma well_formed_getImageData [simp]: "well_formed (getImageData src sx sy sw sh)"
  by (simp add: well_formed_def)

text \<open>The pixel of a tile read from \<open>src\<close> that \<open>putImageData\<close> writes at the position
  \<open>(px, py)\<close> inside the tile is the pixel of \<open>src\<close> at \<open>(px, py)\<close>.\<close>

lemma tile_pixel:
  assumes i: "inside t px py"
  shows "pixels (getImageData src (tileX t) (tileY t) (tileWidth t) (tileHeight t))
           ! ((py - tileY t) * tileWidth t + (px - tileX t))
         = pixels src ! (py * rwidth src + px)"
proof -
  define a where "a = py - tileY t"
  define b where "b = px - tileX t"
  have b: "b < tileWidth t" and a: "a < tileHeight t"
    and px: "tileX t + b = px" and py: "tileY t + a = py"
    using i by (auto simp: inside_def a_def b_def)
  have "a * tileWidth t + b < a * tileWidth t + tileWidth t" using b by simp
  also have "\<dots> = (a + 1) * tileWidth t" by (simp add: algebra_simps)
  also have "\<dots> \<le> tileHeight t * tileWidth t"
    using a by (intro mult_le_mono1) simp
  finally have k: "a * tileWidth t + b < tileWidth t * tileHeight t"
    by (simp add: mult.commute)
  have d: "(a * tileWidth t + b) div tileWidth t = a" using b by simp
  have m: "(a * tileWidth t + b) mod tileWidth t = b" using b by simp
  show ?thesis
    unfolding a_def[symmetric] b_def[symmetric] getImageData_nth[OF k] d m px py ..
qed

lemma process_tile_nth:
  assumes len: "p < length (pixels dst)" and w: "rwidth dst = rwidth src" "0 < rwidth src"
  shows "pixels (process_tile (\<lambda>r. r) src t dst) ! p =
           (if inside t (p mod rwidth src) (p div rwidth src)
            then pixels src ! p else pixels dst ! p)"
proof (cases "inside t (p mod rwidth src) (p div rwidth src)")
  case True
  have "pixels (process_tile (\<lambda>r. r) src t dst) ! p =
      pixels (getImageData src (tileX t) (tileY t) (tileWidth t) (tileHeight t))
           ! ((p div rwidth src - tileY t) * tileWidth t + (p mod rwidth src - tileX t))"
    using True len w by (simp add: process_tile_def putImageData_nth inside_def)
  also have "\<dots> = pixels src ! ((p div rwidth src) * rwidth src + p mod rwidth src)"
    using True by (rule tile_pixel)
  also have "(p div rwidth src) * rwidth src + p mod rwidth src = p" by simp
  finally show ?thesis using True by simp
next
  case False
  then show ?thesis using len w by (auto simp: process_tile_def putImageData_nth inside_def)
qed

lemma process_tile_fields [simp]:
  "rwidth (process_tile proc src t dst) = rwidth dst"
  "rheight (process_tile proc src t dst) = rheight dst"
  "length (pixels (process_tile proc src t dst)) = length (pixels dst)"
  by (simp_all add: process_tile_def)

lemma process_tiles_fields [simp]:
  "rwidth (process_tiles proc src ts dst) = rwidth dst"
  "rheight (process_tiles proc src ts dst) = rheight dst"
  "length (pixels (process_tiles proc src ts dst)) = length (pixels dst)"
  unfolding process_tiles_def by (induction ts arbitrary: dst; simp)+

lemma process_tiles_nth:
  assumes "p < length (pixels dst)" and "rwidth dst = rwidth src" and "0 < rwidth src"
  shows "pixels (process_tiles (\<lambda>r. r) src ts dst) ! p =
           (if \<exists>t \<in> set ts. inside t (p mod rwidth src) (p div rwidth src)
            then pixels src ! p else pixels dst ! p)"
  using assms
proof (induction ts arbitrary: dst)
  case Nil
  then show ?case by (simp add: process_tiles_def)
next
  case (Cons t ts)
  let ?d = "process_tile (\<lambda>r. r) src t dst"
  have step: "process_tiles (\<lambda>r. r) src (t # ts) dst = process_tiles (\<lambda>r. r) src ts ?d"
    by (simp add: process_tiles_def)
  have "pixels (process_tiles (\<lambda>r. r) src ts ?d) ! p =
           (if \<exists>t \<in> set ts. inside t (p mod rwidth src) (p div rwidth src)
            then pixels src ! p else pixels ?d ! p)"
    using Cons.prems by (intro Cons.IH) simp_all
  moreover have "pixels ?d ! p =
           (if inside t (p mod rwidth src) (p div rwidth src)
            then pixels src ! p else pixels dst ! p)"
    using Cons.prems by (intro process_tile_nth) simp_all
  ultimately show ?case unfolding step by auto
qed

text \<open>Reading a rectangle inside a buffer and writing it back at its origin leaves the
  buffer as it is.\<close>

lemma process_tile_in_place:
  assumes wf: "well_formed c"
  shows "process_tile (\<lambda>r. r) c t c = c"
proof (cases "rwidth c = 0")
  case True
  then have "pixels c = []" using wf by (simp add: well_formed_def)
  then show ?thesis by (simp add: process_tile_def putImageData_def)
next
  case False
  have "pixels (process_tile (\<lambda>r. r) c t c) = pixels c"
  proof (rule nth_equalityI)
    show "length (pixels (process_tile (\<lambda>r. r) c t c)) = length (pixels c)" by simp
    fix p assume "p < length (pixels (process_tile (\<lambda>r. r) c t c))"
    then have "p < length (pixels c)" by simp
    then show "pixels (process_tile (\<lambda>r. r) c t c) ! p = pixels c ! p"
      using False by (simp add: process_tile_nth)
  qed
  then show ?thesis by (simp add: process_tile_def putImageData_def)
qed

lemma process_tiles_in_place_id:
  assumes wf: "well_formed c"
  shows "process_tiles_in_place (\<lambda>r. r) ts c = c"
  unfolding process_tiles_in_place_def
  by (induction ts) (simp_all add: process_tile_in_place[OF wf])


subsection \<open>The partition and its reassembly\<close>

text \<open>
  C5. For every width \<open>w\<close>, height \<open>h\<close> and tile edge \<open>T > 0\<close>, the tiles of the grid of
  \<open>\<lceil>w / T\<rceil>\<close> by \<open>\<lceil>h / T\<rceil>\<close> tiles, in the order of the loops (the batched order of
  \<open>compressWithTiling\<close> is the same order), are distinct, non-empty and inside the image;
  every pixel of the image lies in exactly one of them, so they are pairwise disjoint and
  cover the image exactly once. Writing every tile of an untouched buffer at its origin
  into a buffer of the same size, in any order and any number of times each, gives the
  original buffer, whatever the other buffer held; and reading the tiles from a canvas and
  writing them back into it leaves the canvas as it is.
\<close>

theorem tile_partition:
  assumes T: "0 < T"
  shows
   "distinct (tiling w h T) \<and>
    length (tiling w h T) = ceil_div w T * ceil_div h T \<and>
    (\<forall>t \<in> set (tiling w h T).
        tileX t + tileWidth t \<le> w \<and> tileY t + tileHeight t \<le> h \<and>
        0 < tileWidth t \<and> 0 < tileHeight t) \<and>
    (\<forall>px py. px < w \<and> py < h \<longrightarrow> (\<exists>!t. t \<in> set (tiling w h T) \<and> inside t px py)) \<and>
    (\<forall>t \<in> set (tiling w h T). \<forall>t' \<in> set (tiling w h T).
        t \<noteq> t' \<longrightarrow> \<not> (\<exists>px py. inside t px py \<and> inside t' px py)) \<and>
    (\<forall>t \<in> set (tiling w h T). \<forall>px py. inside t px py \<longrightarrow> px < w \<and> py < h) \<and>
    tiling_batched w h T = tiling w h T \<and>
    (\<forall>(src :: 'p raster) dst ts.
        well_formed src \<and> rwidth src = w \<and> rheight src = h \<and>
        well_formed dst \<and> rwidth dst = w \<and> rheight dst = h \<and>
        set ts = set (tiling w h T) \<longrightarrow>
        process_tiles (\<lambda>r. r) src ts dst = src) \<and>
    (\<forall>(canvas :: 'p raster) ts.
        well_formed canvas \<longrightarrow> process_tiles_in_place (\<lambda>r. r) ts canvas = canvas)"
proof (intro conjI)
  show "distinct (tiling w h T)" using T by (rule distinct_tiling)
  show "length (tiling w h T) = ceil_div w T * ceil_div h T"
    by (simp add: tiling_product)
  show "\<forall>t \<in> set (tiling w h T).
        tileX t + tileWidth t \<le> w \<and> tileY t + tileHeight t \<le> h \<and>
        0 < tileWidth t \<and> 0 < tileHeight t"
    using tile_in_bounds[OF T] by blast
  show unique: "\<forall>px py. px < w \<and> py < h \<longrightarrow> (\<exists>!t. t \<in> set (tiling w h T) \<and> inside t px py)"
  proof (intro allI impI)
    fix px py assume p: "px < w \<and> py < h"
    show "\<exists>!t. t \<in> set (tiling w h T) \<and> inside t px py"
    proof (rule ex1I[of _ "tile_at w h T (px div T) (py div T)"])
      show "tile_at w h T (px div T) (py div T) \<in> set (tiling w h T) \<and>
            inside (tile_at w h T (px div T) (py div T)) px py"
        using covering_tile[OF T, of px w py h] p by simp
    next
      fix t assume "t \<in> set (tiling w h T) \<and> inside t px py"
      then show "t = tile_at w h T (px div T) (py div T)"
        using inside_unique(1)[OF T] by blast
    qed
  qed
  show "\<forall>t \<in> set (tiling w h T). \<forall>t' \<in> set (tiling w h T).
        t \<noteq> t' \<longrightarrow> \<not> (\<exists>px py. inside t px py \<and> inside t' px py)"
  proof (intro ballI impI notI)
    fix t t' assume t: "t \<in> set (tiling w h T)" "t' \<in> set (tiling w h T)" "t \<noteq> t'"
      and "\<exists>px py. inside t px py \<and> inside t' px py"
    then obtain px py where i: "inside t px py" "inside t' px py" by blast
    have "t = tile_at w h T (px div T) (py div T)"
      using T t(1) i(1) by (rule inside_unique(1))
    moreover have "t' = tile_at w h T (px div T) (py div T)"
      using T t(2) i(2) by (rule inside_unique(1))
    ultimately show False using t(3) by simp
  qed
  show "\<forall>t \<in> set (tiling w h T). \<forall>px py. inside t px py \<longrightarrow> px < w \<and> py < h"
    using inside_unique(2,3)[OF T] by blast
  show "tiling_batched w h T = tiling w h T" by (rule tiling_batched_eq)
  show "\<forall>(src :: 'p raster) dst ts.
        well_formed src \<and> rwidth src = w \<and> rheight src = h \<and>
        well_formed dst \<and> rwidth dst = w \<and> rheight dst = h \<and>
        set ts = set (tiling w h T) \<longrightarrow>
        process_tiles (\<lambda>r. r) src ts dst = src"
  proof (intro allI impI)
    fix src dst :: "'p raster" and ts
    assume a: "well_formed src \<and> rwidth src = w \<and> rheight src = h \<and>
        well_formed dst \<and> rwidth dst = w \<and> rheight dst = h \<and>
        set ts = set (tiling w h T)"
    then have len: "length (pixels src) = w * h" "length (pixels dst) = w * h"
      and dims: "rwidth src = w" "rheight src = h" "rwidth dst = w" "rheight dst = h"
      and ts: "set ts = set (tiling w h T)"
      by (simp_all add: well_formed_def)
    have "pixels (process_tiles (\<lambda>r. r) src ts dst) = pixels src"
    proof (rule nth_equalityI)
      show "length (pixels (process_tiles (\<lambda>r. r) src ts dst)) = length (pixels src)"
        using len by simp
      fix p assume "p < length (pixels (process_tiles (\<lambda>r. r) src ts dst))"
      then have p: "p < w * h" using len by simp
      then have w: "0 < w" by (cases w) simp_all
      have px: "p mod w < w" using w by simp
      have py: "p div w < h" using p w by (simp add: less_mult_imp_div_less mult.commute)
      have "\<exists>t \<in> set ts. inside t (p mod w) (p div w)"
        unfolding ts using covering_tile[OF T px py] by blast
      moreover have "pixels (process_tiles (\<lambda>r. r) src ts dst) ! p =
           (if \<exists>t \<in> set ts. inside t (p mod rwidth src) (p div rwidth src)
            then pixels src ! p else pixels dst ! p)"
        using p len dims w by (intro process_tiles_nth) simp_all
      ultimately show "pixels (process_tiles (\<lambda>r. r) src ts dst) ! p = pixels src ! p"
        using dims by simp
    qed
    then show "process_tiles (\<lambda>r. r) src ts dst = src"
      using dims by (intro raster.equality) simp_all
  qed
  show "\<forall>(canvas :: 'p raster) ts.
          well_formed canvas \<longrightarrow> process_tiles_in_place (\<lambda>r. r) ts canvas = canvas"
    using process_tiles_in_place_id by blast
qed

lemma tiling_5_3_2:
  "tiling 5 3 2 =
     [\<lparr>tileX = 0, tileY = 0, tileWidth = 2, tileHeight = 2\<rparr>,
      \<lparr>tileX = 2, tileY = 0, tileWidth = 2, tileHeight = 2\<rparr>,
      \<lparr>tileX = 4, tileY = 0, tileWidth = 1, tileHeight = 2\<rparr>,
      \<lparr>tileX = 0, tileY = 2, tileWidth = 2, tileHeight = 1\<rparr>,
      \<lparr>tileX = 2, tileY = 2, tileWidth = 2, tileHeight = 1\<rparr>,
      \<lparr>tileX = 4, tileY = 2, tileWidth = 1, tileHeight = 1\<rparr>]"
  by (simp add: tiling_def ceil_div_eq tile_at_def upt_rec)

theorem tile_partition_witness:
  "(0::nat) < 2 \<and>
   tiling 5 3 2 =
     [\<lparr>tileX = 0, tileY = 0, tileWidth = 2, tileHeight = 2\<rparr>,
      \<lparr>tileX = 2, tileY = 0, tileWidth = 2, tileHeight = 2\<rparr>,
      \<lparr>tileX = 4, tileY = 0, tileWidth = 1, tileHeight = 2\<rparr>,
      \<lparr>tileX = 0, tileY = 2, tileWidth = 2, tileHeight = 1\<rparr>,
      \<lparr>tileX = 2, tileY = 2, tileWidth = 2, tileHeight = 1\<rparr>,
      \<lparr>tileX = 4, tileY = 2, tileWidth = 1, tileHeight = 1\<rparr>] \<and>
   well_formed \<lparr>rwidth = 5, rheight = 3, pixels = [0..<15]\<rparr> \<and>
   well_formed \<lparr>rwidth = 5, rheight = 3, pixels = replicate 15 (99::nat)\<rparr> \<and>
   process_tiles (\<lambda>r. r) \<lparr>rwidth = 5, rheight = 3, pixels = [0..<15]\<rparr>
     (rev (tiling 5 3 2)) \<lparr>rwidth = 5, rheight = 3, pixels = replicate 15 99\<rparr> =
     \<lparr>rwidth = 5, rheight = 3, pixels = [0..<15]\<rparr>"
proof -
  have h: "(0::nat) < 2" by simp
  let ?src = "\<lparr>rwidth = 5, rheight = 3, pixels = [0..<15]\<rparr>"
  let ?dst = "\<lparr>rwidth = 5, rheight = 3, pixels = replicate 15 (99::nat)\<rparr>"
  have wf: "well_formed ?src" "well_formed ?dst" by (simp_all add: well_formed_def)
  have pre: "well_formed ?src \<and> rwidth ?src = 5 \<and> rheight ?src = 3 \<and>
        well_formed ?dst \<and> rwidth ?dst = 5 \<and> rheight ?dst = 3 \<and>
        set (rev (tiling 5 3 2)) = set (tiling 5 3 2)"
    using wf by simp
  from tile_partition[OF h, of 5 3]
  have "\<forall>src dst ts.
        well_formed src \<and> rwidth src = 5 \<and> rheight src = 3 \<and>
        well_formed dst \<and> rwidth dst = 5 \<and> rheight dst = 3 \<and>
        set ts = set (tiling 5 3 2) \<longrightarrow>
        process_tiles (\<lambda>r. r) src ts dst = (src :: nat raster)"
    by blast
  with pre have "process_tiles (\<lambda>r. r) ?src (rev (tiling 5 3 2)) ?dst = ?src" by blast
  with h wf tiling_5_3_2 show ?thesis by blast
qed


section \<open>Adaptive quantization\<close>

subsection \<open>Loops whose passes touch disjoint cells\<close>

lemma fold_nested:
  "fold (\<lambda>y s. fold (f y) xs s) ys s = fold (\<lambda>(y, x). f y x) (List.product ys xs) s"
proof (induction ys arbitrary: s)
  case Nil
  then show ?case by simp
next
  case (Cons y ys)
  have "fold (\<lambda>(y, x). f y x) (map (Pair y) xs) s = fold (f y) xs s"
    by (simp add: fold_map comp_def)
  then show ?case using Cons by simp
qed

lemma fold_local:
  fixes step :: "'k \<Rightarrow> 'a list \<Rightarrow> 'a list" and cells :: "'k \<Rightarrow> nat set"
  assumes len: "\<And>k d. length (step k d) = length d"
    and outside: "\<And>k d j. j \<notin> cells k \<Longrightarrow> step k d ! j = d ! j"
    and reads: "\<And>k d d' j. length d = length d' \<Longrightarrow> (\<forall>j \<in> cells k. d ! j = d' ! j) \<Longrightarrow>
                  j \<in> cells k \<Longrightarrow> step k d ! j = step k d' ! j"
  shows "distinct ks \<Longrightarrow>
         (\<forall>k \<in> set ks. \<forall>k' \<in> set ks. k \<noteq> k' \<longrightarrow> cells k \<inter> cells k' = {}) \<Longrightarrow>
         length (fold step ks d) = length d \<and>
         (\<forall>j. (\<forall>k \<in> set ks. j \<notin> cells k) \<longrightarrow> fold step ks d ! j = d ! j) \<and>
         (\<forall>k \<in> set ks. \<forall>j \<in> cells k. fold step ks d ! j = step k d ! j)"
proof (induction ks arbitrary: d)
  case Nil
  then show ?case by simp
next
  case (Cons a ks)
  let ?d = "step a d"
  have dist: "distinct ks" and a: "a \<notin> set ks" using Cons.prems(1) by simp_all
  have disj: "\<forall>k \<in> set ks. \<forall>k' \<in> set ks. k \<noteq> k' \<longrightarrow> cells k \<inter> cells k' = {}"
    using Cons.prems(2) by simp
  have adisj: "\<And>k. k \<in> set ks \<Longrightarrow> cells a \<inter> cells k = {}"
    using Cons.prems(2) a by auto
  note ih = Cons.IH[OF dist disj, of ?d]
  have L: "length (fold step (a # ks) d) = length d"
    using ih len by simp
  have O: "\<forall>j. (\<forall>k \<in> set (a # ks). j \<notin> cells k) \<longrightarrow> fold step (a # ks) d ! j = d ! j"
  proof (intro allI impI)
    fix j assume j: "\<forall>k \<in> set (a # ks). j \<notin> cells k"
    then have "fold step ks ?d ! j = ?d ! j" using ih by simp
    also have "\<dots> = d ! j" using j by (intro outside) simp
    finally show "fold step (a # ks) d ! j = d ! j" by simp
  qed
  have I: "\<forall>k \<in> set (a # ks). \<forall>j \<in> cells k. fold step (a # ks) d ! j = step k d ! j"
  proof (intro ballI)
    fix k j assume k: "k \<in> set (a # ks)" and j: "j \<in> cells k"
    show "fold step (a # ks) d ! j = step k d ! j"
    proof (cases "k = a")
      case True
      have "\<forall>k' \<in> set ks. j \<notin> cells k'"
        using adisj j True by blast
      then have "fold step ks ?d ! j = ?d ! j" using ih by simp
      then show ?thesis using True by simp
    next
      case False
      then have kin: "k \<in> set ks" using k by simp
      then have "fold step ks ?d ! j = step k ?d ! j" using ih j by simp
      also have "\<dots> = step k d ! j"
      proof (rule reads)
        show "length ?d = length d" by (rule len)
        show "\<forall>j \<in> cells k. ?d ! j = d ! j"
        proof
          fix i assume "i \<in> cells k"
          then have "i \<notin> cells a" using adisj[OF kin] by blast
          then show "?d ! i = d ! i" by (rule outside)
        qed
        show "j \<in> cells k" by (rule j)
      qed
      finally show ?thesis by simp
    qed
  qed
  show ?case using L O I by blast
qed

lemma pixel_index_inject:
  assumes "x < w" and "x' < w" and "y * w + x = y' * w + x'"
  shows "y = y' \<and> x = (x'::nat)"
proof -
  have "(y * w + x) div w = y" "(y * w + x) mod w = x" using assms(1) by simp_all
  moreover have "(y' * w + x') div w = y'" "(y' * w + x') mod w = x'" using assms(2) by simp_all
  ultimately show ?thesis using assms(3) by metis
qed


subsection \<open>The edge map\<close>

lemma get_inside: "i < length data \<Longrightarrow> get data i = Some (unat (data ! i))"
  by (simp add: get_def)

lemma neighborDiff_inside:
  assumes "idx + 2 < length data" and "nidx + 2 < length data"
  shows "neighborDiff data idx nidx = Some (colorDiff data idx nidx)"
  using assms by (simp add: neighborDiff_def get_inside colorDiff_def channel_def)

lemma length_detect_edge [simp]: "length (detect_edge data w y x em) = length em"
  by (simp add: detect_edge_def Let_def)

lemma detect_edge_other:
  "j \<noteq> y * w + x \<Longrightarrow> detect_edge data w y x em ! j = em ! j"
  by (simp add: detect_edge_def Let_def)

lemma detect_edge_reads:
  assumes "length em = length em'" and "em ! (y * w + x) = em' ! (y * w + x)"
  shows "detect_edge data w y x em ! (y * w + x) = detect_edge data w y x em' ! (y * w + x)"
proof (cases "y * w + x < length em")
  case True
  then show ?thesis using assms by (simp add: detect_edge_def Let_def)
next
  case False
  then have "em[y * w + x := v] = em" "em'[y * w + x := v] = em'" for v
    using assms(1) by (simp_all add: list_update_beyond not_less)
  then show ?thesis using assms(2) by (simp add: detect_edge_def Let_def)
qed

text \<open>Inside the image, away from the border, all the reads of the edge detection are
  inside the array.\<close>

lemma interior_bounds:
  assumes len: "length data = width * height * 4"
    and x: "1 \<le> x" "x + 1 < width" and y: "1 \<le> y" "y + 1 < height"
  shows "(y * width + x) * 4 + 3 < length data"
    and "(y * width + (x - 1)) * 4 + 2 < length data"
    and "(y * width + (x + 1)) * 4 + 2 < length data"
    and "((y - 1) * width + x) * 4 + 2 < length data"
    and "((y + 1) * width + x) * 4 + 2 < length data"
proof -
  define a where "a = y * width"
  define up where "up = (y - 1) * width"
  define down where "down = (y + 1) * width"
  define n where "n = width * height"
  have down: "down = a + width" by (simp add: down_def a_def algebra_simps)
  have up: "up \<le> a" by (simp add: up_def a_def mult_le_mono1)
  have "down + width = (y + 2) * width" by (simp add: down_def algebra_simps)
  also have "\<dots> \<le> height * width" using y by (intro mult_le_mono1) simp
  finally have b: "down + width \<le> n" by (simp add: n_def mult.commute)
  have l: "length data = n * 4" by (simp add: len n_def)
  have "(a + x) * 4 + 3 < n * 4" using b down x by simp
  then show "(y * width + x) * 4 + 3 < length data" by (simp add: l a_def)
  have "(a + (x - 1)) * 4 + 2 < n * 4" using b down x by simp
  then show "(y * width + (x - 1)) * 4 + 2 < length data" by (simp add: l a_def)
  have "(a + (x + 1)) * 4 + 2 < n * 4" using b down x by simp
  then show "(y * width + (x + 1)) * 4 + 2 < length data" by (simp add: l a_def)
  have "(up + x) * 4 + 2 < n * 4" using b down up x by simp
  then show "((y - 1) * width + x) * 4 + 2 < length data" by (simp add: l up_def)
  have "(down + x) * 4 + 2 < n * 4" using b x by simp
  then show "((y + 1) * width + x) * 4 + 2 < length data" by (simp add: l down_def)
qed

lemma detect_edge_interior:
  assumes len: "length data = width * height * 4"
    and x: "1 \<le> x" "x + 1 < width" and y: "1 \<le> y" "y + 1 < height"
    and em: "length em = width * height"
  shows "detect_edge data width y x em ! (y * width + x) =
           (if unat (data ! ((y * width + x) * 4 + 3)) < 128 then em ! (y * width + x)
            else if neighbor_delta data width x y > 100 then 255 else 0)"
proof -
  note b = interior_bounds[OF len x y]
  have p: "y * width + x < length em" using b(1) len em by arith
  have i2: "(y * width + x) * 4 + 2 < length data" using b(1) by simp
  have a: "get data ((y * width + x) * 4 + 3) = Some (unat (data ! ((y * width + x) * 4 + 3)))"
    using b(1) by (rule get_inside)
  have d: "neighborDiff data ((y * width + x) * 4) ((y * width + (x - 1)) * 4) =
             Some (colorDiff data ((y * width + x) * 4) ((y * width + (x - 1)) * 4))"
    "neighborDiff data ((y * width + x) * 4) ((y * width + (x + 1)) * 4) =
             Some (colorDiff data ((y * width + x) * 4) ((y * width + (x + 1)) * 4))"
    "neighborDiff data ((y * width + x) * 4) (((y - 1) * width + x) * 4) =
             Some (colorDiff data ((y * width + x) * 4) (((y - 1) * width + x) * 4))"
    "neighborDiff data ((y * width + x) * 4) (((y + 1) * width + x) * 4) =
             Some (colorDiff data ((y * width + x) * 4) (((y + 1) * width + x) * 4))"
    using i2 b(2-5) by (simp_all add: neighborDiff_inside)
  show ?thesis
    unfolding detect_edge_def Let_def a d max_nan_def neighbor_delta_def
    using p by simp
qed

lemma detect_edges_nth:
  assumes len: "length data = width * height * 4" and x: "x < width" and y: "y < height"
  shows "detect_edges data width height ! (y * width + x) =
           (if is_edge data width height x y then 255 else 0)"
proof -
  define ks where "ks = List.product [1..<height - 1] [1..<width - 1]"
  define step where "step = (\<lambda>(y, x). detect_edge data width y x)"
  define cells where "cells = (\<lambda>(y::nat, x::nat). {y * width + x})"
  define em0 :: "byte list" where "em0 = replicate (width * height) 0"
  have eq: "detect_edges data width height = fold step ks em0"
    by (simp add: detect_edges_def fold_nested ks_def step_def em0_def)
  have l: "\<And>k d. length (step k d) = length d"
    by (simp add: step_def split: prod.split)
  have o: "\<And>k d j. j \<notin> cells k \<Longrightarrow> step k d ! j = d ! j"
    by (auto simp: step_def cells_def detect_edge_other split: prod.splits)
  have r: "\<And>k d d' j. length d = length d' \<Longrightarrow> (\<forall>j \<in> cells k. d ! j = d' ! j) \<Longrightarrow>
                  j \<in> cells k \<Longrightarrow> step k d ! j = step k d' ! j"
    by (auto simp: step_def cells_def intro: detect_edge_reads split: prod.splits)
  have dist: "distinct ks" by (simp add: ks_def distinct_product)
  have disj: "\<forall>k \<in> set ks. \<forall>k' \<in> set ks. k \<noteq> k' \<longrightarrow> cells k \<inter> cells k' = {}"
  proof (intro ballI impI)
    fix k k' assume k: "k \<in> set ks" "k' \<in> set ks" "k \<noteq> k'"
    obtain a b where ab: "k = (a, b)" by (cases k)
    obtain a' b' where ab': "k' = (a', b')" by (cases k')
    have "b < width" "b' < width" using k(1,2) ab ab' by (auto simp: ks_def)
    then have "a * width + b \<noteq> a' * width + b'"
      using pixel_index_inject[of b width b' a a'] k(3) ab ab' by blast
    then show "cells k \<inter> cells k' = {}" by (simp add: cells_def ab ab')
  qed
  note fl = fold_local[of step cells ks em0, OF l o r dist disj]
  have em0: "length em0 = width * height" "em0 ! (y * width + x) = 0"
  proof -
    show "length em0 = width * height" by (simp add: em0_def)
    have "y * width + x < width * height"
    proof -
      have "y * width + x < y * width + width" using x by simp
      also have "\<dots> = (y + 1) * width" by (simp add: algebra_simps)
      also have "\<dots> \<le> height * width" using y by (intro mult_le_mono1) simp
      finally show ?thesis by (simp add: mult.commute)
    qed
    then show "em0 ! (y * width + x) = 0" by (simp add: em0_def)
  qed
  show ?thesis
  proof (cases "1 \<le> x \<and> x + 1 < width \<and> 1 \<le> y \<and> y + 1 < height")
    case True
    then have kin: "(y, x) \<in> set ks" by (auto simp: ks_def)
    have "y * width + x \<in> cells (y, x)" by (simp add: cells_def)
    with fl kin have "fold step ks em0 ! (y * width + x) = step (y, x) em0 ! (y * width + x)"
      by blast
    also have "\<dots> = detect_edge data width y x em0 ! (y * width + x)"
      by (simp add: step_def)
    also have "\<dots> = (if unat (data ! ((y * width + x) * 4 + 3)) < 128 then em0 ! (y * width + x)
            else if neighbor_delta data width x y > 100 then 255 else 0)"
      using True by (intro detect_edge_interior[OF len _ _ _ _ em0(1)]) simp_all
    also have "\<dots> = (if is_edge data width height x y then 255 else 0)"
      using True em0(2) by (auto simp: is_edge_def)
    finally show ?thesis unfolding eq .
  next
    case False
    have "\<forall>k \<in> set ks. y * width + x \<notin> cells k"
    proof
      fix k assume k: "k \<in> set ks"
      obtain a b where ab: "k = (a, b)" by (cases k)
      have kb: "1 \<le> a" "a + 1 < height" "1 \<le> b" "b + 1 < width"
        using k ab by (auto simp: ks_def)
      have "a * width + b \<noteq> y * width + x"
      proof
        assume "a * width + b = y * width + x"
        then have "a = y \<and> b = x"
          using pixel_index_inject[of b width x a y] kb x by simp
        with kb False show False by simp
      qed
      then show "y * width + x \<notin> cells k" by (simp add: cells_def ab)
    qed
    with fl have "fold step ks em0 ! (y * width + x) = em0 ! (y * width + x)" by blast
    moreover have "\<not> is_edge data width height x y" using False by (auto simp: is_edge_def)
    ultimately show ?thesis unfolding eq using em0(2) by simp
  qed
qed


subsection \<open>The quantization pass\<close>

lemma nth_list_update_full:
  "xs[k := v] ! j = (if j = k \<and> j < length xs then v else xs ! j)"
  by (cases "k < length xs") (auto simp: list_update_beyond)

lemma get_zero: "get d i = Some 0 \<longleftrightarrow> i < length d \<and> d ! i = 0"
  by (simp add: get_def unsigned_eq_0_iff)

lemma length_quantize_pixel [simp]: "length (quantize_pixel em w y x d) = length d"
  by (simp add: quantize_pixel_def Let_def)

lemma quantize_pixel_nth:
  "quantize_pixel em w y x d ! j =
     (let i = (y * w + x) * 4; level = (if unat (em ! (y * w + x)) > 0 then 2 else 6)
      in if i + 3 < length d \<and> d ! (i + 3) = 0 then d ! j
         else if j < length d \<and> j = i then quantize level (d ! i)
         else if j < length d \<and> j = i + 1 then quantize level (d ! (i + 1))
         else if j < length d \<and> j = i + 2 then quantize level (d ! (i + 2))
         else if j < length d \<and> j = i + 3 then binarize (d ! (i + 3))
         else d ! j)"
  by (simp add: quantize_pixel_def Let_def get_zero nth_list_update_full)

lemma quantize_pixels_nth:
  assumes x: "x < width" and y: "y < height" and c: "c < 4"
  shows "fold (\<lambda>y d. fold (quantize_pixel em width y) [0..<width] d) [0..<height] data !
           ((y * width + x) * 4 + c) =
         quantize_pixel em width y x data ! ((y * width + x) * 4 + c)"
    and "length (fold (\<lambda>y d. fold (quantize_pixel em width y) [0..<width] d) [0..<height] data)
           = length data"
proof -
  define ks where "ks = List.product [0..<height] [0..<width]"
  define step where "step = (\<lambda>(y, x). quantize_pixel em width y x)"
  let ?cells = "pixel_cells width"
  have eq: "fold (\<lambda>y d. fold (quantize_pixel em width y) [0..<width] d) [0..<height] data =
            fold step ks data"
    by (simp add: fold_nested ks_def step_def)
  have l: "\<And>k d. length (step k d) = length d"
    by (simp add: step_def split: prod.split)
  have o: "\<And>k d j. j \<notin> ?cells k \<Longrightarrow> step k d ! j = d ! j"
    by (auto simp: step_def pixel_cells_def quantize_pixel_nth Let_def split: prod.splits)
  have r: "\<And>k d d' j. length d = length d' \<Longrightarrow> (\<forall>j \<in> ?cells k. d ! j = d' ! j) \<Longrightarrow>
                  j \<in> ?cells k \<Longrightarrow> step k d ! j = step k d' ! j"
    by (auto simp: step_def pixel_cells_def quantize_pixel_nth Let_def split: prod.splits)
  have dist: "distinct ks" by (simp add: ks_def distinct_product)
  have disj: "\<forall>k \<in> set ks. \<forall>k' \<in> set ks. k \<noteq> k' \<longrightarrow> ?cells k \<inter> ?cells k' = {}"
  proof (intro ballI impI)
    fix k k' assume k: "k \<in> set ks" "k' \<in> set ks" "k \<noteq> k'"
    obtain a b where ab: "k = (a, b)" by (cases k)
    obtain a' b' where ab': "k' = (a', b')" by (cases k')
    have "b < width" "b' < width" using k(1,2) ab ab' by (auto simp: ks_def)
    then have "a * width + b \<noteq> a' * width + b'"
      using pixel_index_inject[of b width b' a a'] k(3) ab ab' by blast
    then show "?cells k \<inter> ?cells k' = {}"
      unfolding pixel_cells_def ab ab' prod.case by auto
  qed
  note fl = fold_local[of step ?cells ks data, OF l o r dist disj]
  have kin: "(y, x) \<in> set ks" using x y by (simp add: ks_def)
  have "(y * width + x) * 4 + c \<in> ?cells (y, x)"
    using c by (auto simp: pixel_cells_def)
  with fl kin
  have "fold step ks data ! ((y * width + x) * 4 + c) = step (y, x) data ! ((y * width + x) * 4 + c)"
    by blast
  then show "fold (\<lambda>y d. fold (quantize_pixel em width y) [0..<width] d) [0..<height] data !
           ((y * width + x) * 4 + c) =
         quantize_pixel em width y x data ! ((y * width + x) * 4 + c)"
    unfolding eq by (simp add: step_def)
  show "length (fold (\<lambda>y d. fold (quantize_pixel em width y) [0..<width] d) [0..<height] data)
           = length data"
    unfolding eq using fl by blast
qed

lemma pixel_in_bounds:
  assumes len: "length data = width * height * 4" and x: "x < width" and y: "y < height"
  shows "(y * width + x) * 4 + 3 < length data"
proof -
  have "y * width + x < y * width + width" using x by simp
  also have "\<dots> = (y + 1) * width" by (simp add: algebra_simps)
  also have "\<dots> \<le> height * width" using y by (intro mult_le_mono1) simp
  finally have "y * width + x < width * height" by (simp add: mult.commute)
  then have "(y * width + x) * 4 + 3 < width * height * 4" by simp
  then show ?thesis using len by simp
qed

lemma reduceColorsAdaptive_pixel:
  assumes len: "length data = width * height * 4" and x: "x < width" and y: "y < height"
    and c: "c < 3"
  shows "reduceColorsAdaptive data width height ! ((y * width + x) * 4 + c) =
           (if data ! ((y * width + x) * 4 + 3) = 0 then data ! ((y * width + x) * 4 + c)
            else quantize (if is_edge data width height x y then 2 else 6)
                   (data ! ((y * width + x) * 4 + c)))"
    and "reduceColorsAdaptive data width height ! ((y * width + x) * 4 + 3) =
           binarize (data ! ((y * width + x) * 4 + 3))"
    and "length (reduceColorsAdaptive data width height) = length data"
proof -
  note b = pixel_in_bounds[OF len x y]
  note e = detect_edges_nth[OF len x y]
  have c4: "c < 4" using c by simp
  consider "c = 0" | "c = 1" | "c = 2" using c by linarith
  then show "reduceColorsAdaptive data width height ! ((y * width + x) * 4 + c) =
           (if data ! ((y * width + x) * 4 + 3) = 0 then data ! ((y * width + x) * 4 + c)
            else quantize (if is_edge data width height x y then 2 else 6)
                   (data ! ((y * width + x) * 4 + c)))"
    unfolding reduceColorsAdaptive_def Let_def quantize_pixels_nth(1)[OF x y c4]
    using b by cases (simp_all add: quantize_pixel_nth e Let_def)
  have "(3::nat) < 4" by simp
  note q = quantize_pixels_nth(1)[OF x y this]
  show "reduceColorsAdaptive data width height ! ((y * width + x) * 4 + 3) =
           binarize (data ! ((y * width + x) * 4 + 3))"
    unfolding reduceColorsAdaptive_def Let_def q
    using b by (simp add: quantize_pixel_nth e Let_def binarize_def)
  show "length (reduceColorsAdaptive data width height) = length data"
    unfolding reduceColorsAdaptive_def Let_def
    using quantize_pixels_nth(2)[OF x y, of 0] by simp
qed

subsection \<open>The adaptive pass as a whole\<close>

text \<open>
  C6. For every buffer of \<open>width * height\<close> RGBA pixels and every pixel \<open>(x, y)\<close> of it:
  the pixel is flagged in the edge map exactly when it is not on the border of the image,
  its alpha is at least 128, and the largest, over its four neighbours, of the summed
  absolute differences of R, G and B exceeds 100; when its alpha is 0 its R, G and B are
  left as they are, otherwise each of them is rounded down to a multiple of 2 when the
  pixel is flagged and to a multiple of 6 when it is not; its alpha becomes 0 when it is
  below 128 and 255 otherwise; and the buffer keeps its length.
\<close>

theorem adaptive_quantization:
  assumes "length data = width * height * 4" and "x < width" and "y < height"
  shows
   "length (reduceColorsAdaptive data width height) = length data \<and>
    (0 < unat (detect_edges data width height ! (y * width + x)) \<longleftrightarrow>
       is_edge data width height x y) \<and>
    (\<forall>c < 3. reduceColorsAdaptive data width height ! ((y * width + x) * 4 + c) =
       (if data ! ((y * width + x) * 4 + 3) = 0 then data ! ((y * width + x) * 4 + c)
        else quantize (if is_edge data width height x y then 2 else 6)
               (data ! ((y * width + x) * 4 + c)))) \<and>
    reduceColorsAdaptive data width height ! ((y * width + x) * 4 + 3) =
      binarize (data ! ((y * width + x) * 4 + 3))"
proof (intro conjI allI impI)
  show "length (reduceColorsAdaptive data width height) = length data"
    using reduceColorsAdaptive_pixel(3)[OF assms, of 0] by simp
  show "0 < unat (detect_edges data width height ! (y * width + x)) \<longleftrightarrow>
       is_edge data width height x y"
    by (simp add: detect_edges_nth[OF assms])
  show "reduceColorsAdaptive data width height ! ((y * width + x) * 4 + 3) =
      binarize (data ! ((y * width + x) * 4 + 3))"
    using reduceColorsAdaptive_pixel(2)[OF assms, of 0] by simp
next
  fix c :: nat assume "c < 3"
  then show "reduceColorsAdaptive data width height ! ((y * width + x) * 4 + c) =
       (if data ! ((y * width + x) * 4 + 3) = 0 then data ! ((y * width + x) * 4 + c)
        else quantize (if is_edge data width height x y then 2 else 6)
               (data ! ((y * width + x) * 4 + c)))"
    by (rule reduceColorsAdaptive_pixel(1)[OF assms])
qed

theorem adaptive_quantization_witness:
  "length spot = 3 * 3 * 4 \<and> (1::nat) < 3 \<and>
   is_edge spot 3 3 1 1 \<and>
   0 < unat (detect_edges spot 3 3 ! 4) \<and>
   reduceColorsAdaptive spot 3 3 ! 16 = 254 \<and>
   reduceColorsAdaptive spot 3 3 ! 17 = 200 \<and>
   reduceColorsAdaptive spot 3 3 ! 18 = 8 \<and>
   reduceColorsAdaptive spot 3 3 ! 19 = 255 \<and>
   length (reduceColorsAdaptive spot 3 3) = 36"
proof -
  have len: "length spot = 3 * 3 * 4" by (simp add: spot_def)
  have lt: "(1::nat) < 3" by simp
  have e: "is_edge spot 3 3 1 1"
    by (simp add: is_edge_def neighbor_delta_def colorDiff_def channel_def absdiff_def spot_def)
  have v: "spot ! 16 = 255" "spot ! 17 = 200" "spot ! 18 = 9" "spot ! 19 = 255"
    by (simp_all add: spot_def)
  have q: "quantize 2 255 = 254" "quantize 2 200 = 200" "quantize 2 9 = 8"
    by (simp_all add: quantize_def clamp8_def)
  have b: "binarize 255 = 255" by (simp add: binarize_def)
  note t = adaptive_quantization[OF len lt lt]
  have c: "(0::nat) < 3" "(1::nat) < 3" "(2::nat) < 3" by simp_all
  from t have ch: "\<forall>c < 3. reduceColorsAdaptive spot 3 3 ! ((1 * 3 + 1) * 4 + c) =
       (if spot ! ((1 * 3 + 1) * 4 + 3) = 0 then spot ! ((1 * 3 + 1) * 4 + c)
        else quantize (if is_edge spot 3 3 1 1 then 2 else 6) (spot ! ((1 * 3 + 1) * 4 + c)))"
    by blast
  have "reduceColorsAdaptive spot 3 3 ! 16 = 254"
    using ch[rule_format, OF c(1)] e v q by simp
  moreover have "reduceColorsAdaptive spot 3 3 ! 17 = 200"
    using ch[rule_format, OF c(2)] e v q by simp
  moreover have "reduceColorsAdaptive spot 3 3 ! 18 = 8"
    using ch[rule_format, OF c(3)] e v q by simp
  moreover have "reduceColorsAdaptive spot 3 3 ! 19 = 255"
    using t v b by simp
  moreover have "0 < unat (detect_edges spot 3 3 ! 4)"
    using t e by simp
  moreover have "length (reduceColorsAdaptive spot 3 3) = 36"
    using t len by simp
  ultimately show ?thesis using len lt e by blast
qed

theorem adaptive_quantization_counterexample:
  "colorDiff top_spot 4 0 = 765 \<and>
   detect_edges top_spot 3 3 ! 1 = 0 \<and>
   reduceColorsAdaptive top_spot 3 3 ! 4 = 252 \<and>
   quantize 2 255 = 254 \<and>
   reduceColorsAdaptive [7, 7, 7, 0] 1 1 = [7, 7, 7, 0] \<and>
   quantize 6 7 = 6"
  by code_simp


end
